theory Spec2Isabelle
  imports Complex_Main
begin

section \<open>Handles, scalars, points\<close>

text \<open>
  A shallow embedding of \<^verbatim>\<open>src/algorithms/SurfaceTriangulation.cpp\<close> of the
  Polygon Mesh Processing library. Mesh handles are indices, as in the library.
  \<^verbatim>\<open>Scalar\<close> (a floating-point type) is idealised as \<open>real\<close>: rounding,
  infinities and NaN are outside the model. Indices that the source keeps in
  \<^verbatim>\<open>int\<close> variables and that can become negative (the split sentinel \<open>-1\<close>,
  the arguments of \<^verbatim>\<open>insert_edge\<close>) are \<open>int\<close>; loop counters that
  never leave \<open>0..n\<close> are \<open>nat\<close>.
\<close>

type_synonym Vertex = nat
type_synonym Halfedge = nat
type_synonym Face = nat
type_synonym Scalar = real
type_synonym Point = "real \<times> real \<times> real"

text \<open>
  Modelled from the spec: the objective selector. Its declaration
  (\<^verbatim>\<open>enum Objective { MIN_AREA, MAX_ANGLE }\<close>) is in the header, which is not
  under src/; the spec names "two mutually exclusive modes". The selector is an
  integer so that a value outside the two modes can be written down.
\<close>

type_synonym Objective = int

definition MIN_AREA :: Objective where
  "MIN_AREA = 0"

definition MAX_ANGLE :: Objective where
  "MAX_ANGLE = 1"

text \<open>
  Modelled from the spec: "the maximum representable value" of the scalar type,
  \<^verbatim>\<open>std::numeric_limits<Scalar>::max()\<close>. The type is declared outside src/; the
  value is the one of single precision, \<open>(2 - 2\<^sup>-\<^sup>2\<^sup>3) * 2\<^sup>1\<^sup>2\<^sup>7\<close>. Of the value, the
  general theorems use only that it is at least 1.
\<close>

definition scalar_max :: Scalar where
  "scalar_max = 340282346638528859811704183484516925440"

text \<open>\<^verbatim>\<open>std::max(a, b)\<close> is \<^verbatim>\<open>(a < b) ? b : a\<close>.\<close>

definition std_max :: "Scalar \<Rightarrow> Scalar \<Rightarrow> Scalar" where
  "std_max a b = (if a < b then b else a)"

text \<open>
  Modelled from the spec: "basic 3D vector arithmetic (subtraction, cross product,
  dot product, normalization, squared norm)", the library's vector header, not
  under src/: the six functions that follow. Normalisation scales by the inverse
  of the Euclidean norm; in the model the zero vector normalises to itself.
\<close>

fun psub :: "Point \<Rightarrow> Point \<Rightarrow> Point" where
  "psub (a1, a2, a3) (b1, b2, b3) = (a1 - b1, a2 - b2, a3 - b3)"

fun cross :: "Point \<Rightarrow> Point \<Rightarrow> Point" where
  "cross (a1, a2, a3) (b1, b2, b3) =
     (a2 * b3 - a3 * b2, a3 * b1 - a1 * b3, a1 * b2 - a2 * b1)"

fun dot :: "Point \<Rightarrow> Point \<Rightarrow> Scalar" where
  "dot (a1, a2, a3) (b1, b2, b3) = a1 * b1 + a2 * b2 + a3 * b3"

definition sqrnorm :: "Point \<Rightarrow> Scalar" where
  "sqrnorm v = dot v v"

definition norm3 :: "Point \<Rightarrow> Scalar" where
  "norm3 v = sqrt (sqrnorm v)"

fun normalize :: "Point \<Rightarrow> Point" where
  "normalize (a1, a2, a3) =
     (a1 / norm3 (a1, a2, a3), a2 / norm3 (a1, a2, a3), a3 / norm3 (a1, a2, a3))"

section \<open>The mesh interface\<close>

text \<open>
  Modelled from the spec: the half-edge mesh (class \<^verbatim>\<open>SurfaceMesh\<close>, not under
  src/), as the interface of section 6 of the spec and the arena of its design notes:
  "traversal operations (next around face, target vertex, opposite edge) as pure
  lookup functions over that arena". Halfedges are the handles below
  \<open>halfedges_size\<close>, faces the handles below \<open>faces_size\<close>; \<open>face h = None\<close> is a
  halfedge on the mesh boundary.
\<close>

record SurfaceMesh =
  halfedges_size :: nat
  faces_size :: nat
  to_vertex :: "Halfedge \<Rightarrow> Vertex"
  next_halfedge :: "Halfedge \<Rightarrow> Halfedge"
  opposite_halfedge :: "Halfedge \<Rightarrow> Halfedge"
  halfedge :: "Face \<Rightarrow> Halfedge"
  face :: "Halfedge \<Rightarrow> Face option"
  is_manifold :: "Vertex \<Rightarrow> bool"
  position :: "Vertex \<Rightarrow> Point"

text \<open>Modelled from the spec: the vertex a directed edge starts from, the target of
  "the reverse of a directed edge".\<close>

definition from_vertex :: "SurfaceMesh \<Rightarrow> Halfedge \<Rightarrow> Vertex" where
  "from_vertex m h = to_vertex m (opposite_halfedge m h)"

text \<open>Modelled from the spec: "is a directed edge on the mesh boundary", that is,
  it bounds no face.\<close>

definition is_boundary :: "SurfaceMesh \<Rightarrow> Halfedge \<Rightarrow> bool" where
  "is_boundary m h = (face m h = None)"

text \<open>
  Modelled from the spec: "does a directed edge exist between two named vertices
  (and retrieve it)". \<open>None\<close> is the invalid handle.
\<close>

definition find_halfedge :: "SurfaceMesh \<Rightarrow> Vertex \<Rightarrow> Vertex \<Rightarrow> Halfedge option" where
  "find_halfedge m a b =
     find (\<lambda>h. from_vertex m h = a \<and> to_vertex m h = b) [0..<halfedges_size m]"

text \<open>Modelled from the spec: "enumerate all faces", the faces present when the
  enumeration starts.\<close>

definition faces :: "SurfaceMesh \<Rightarrow> Face list" where
  "faces m = [0..<faces_size m]"

text \<open>
  Modelled from the spec: the mutation \<^verbatim>\<open>SurfaceMesh::insert_edge(h0, h1)\<close>, "split a
  face in two by inserting an edge that connects the target vertices of two
  directed edges currently bounding the same face loop". The new edge is the pair
  of fresh halfedges \<open>h4\<close> (towards the target of \<open>h1\<close>) and \<open>h5\<close> (towards the target
  of \<open>h0\<close>); the loop is re-linked into \<open>h0, h4, next h1, ...\<close> and
  \<open>h1, h5, next h0, ...\<close>; the old face keeps the first loop and a fresh face takes
  the second. \<open>on_loop nxt bound h2 h\<close> says that \<open>h\<close> is met within \<open>bound\<close> steps from
  \<open>h2\<close>: the halfedges that get the fresh face.
\<close>

definition on_loop :: "(Halfedge \<Rightarrow> Halfedge) \<Rightarrow> nat \<Rightarrow> Halfedge \<Rightarrow> Halfedge \<Rightarrow> bool" where
  "on_loop nxt bound h2 h = (\<exists>k \<in> set [0..<bound]. (nxt ^^ k) h2 = h)"

definition mesh_insert_edge :: "SurfaceMesh \<Rightarrow> Halfedge \<Rightarrow> Halfedge \<Rightarrow> SurfaceMesh" where
  "mesh_insert_edge m h0 h1 =
     (let v0 = to_vertex m h0;
          v1 = to_vertex m h1;
          h2 = next_halfedge m h0;
          h3 = next_halfedge m h1;
          h4 = halfedges_size m;
          h5 = Suc (halfedges_size m);
          f1 = faces_size m;
          nxt = (next_halfedge m)(h0 := h4, h4 := h3, h1 := h5, h5 := h2)
      in m\<lparr> halfedges_size := halfedges_size m + 2,
            faces_size := Suc (faces_size m),
            to_vertex := (to_vertex m)(h4 := v1, h5 := v0),
            next_halfedge := nxt,
            opposite_halfedge := (opposite_halfedge m)(h4 := h5, h5 := h4),
            halfedge := (case face m h0 of
                           None \<Rightarrow> (halfedge m)(f1 := h1)
                         | Some f0 \<Rightarrow> (halfedge m)(f0 := h0, f1 := h1)),
            face := (\<lambda>h. if on_loop nxt (halfedges_size m + 2) h2 h then Some f1
                          else if h = h4 then face m h0
                          else face m h) \<rparr>)"

section \<open>The triangulation object\<close>

text \<open>
  The members of \<^verbatim>\<open>SurfaceTriangulation\<close>: a member \<^verbatim>\<open>name_\<close> of the source is
  the field \<open>m_name\<close>. \<^verbatim>\<open>points_\<close> is the mesh's vertex property, read through
  \<open>position\<close>. \<open>cerr\<close> collects the diagnostics written to the error stream.
\<close>

record SurfaceTriangulation =
  m_mesh :: SurfaceMesh
  m_objective :: Objective
  m_halfedges :: "Halfedge list"
  m_vertices :: "Vertex list"
  m_weight :: "Scalar list list"
  m_index :: "int list list"
  cerr :: "string list"

text \<open>
  What leaves the normal control flow: \<^verbatim>\<open>exit(1)\<close>, and a vector indexed outside
  its bounds (undefined behaviour in the source, a fault in the model). A loop that
  never ends is the value \<open>None\<close> of the option type around a result.
\<close>

datatype fault = Exit int | OutOfRange

text \<open>The two diagnostics, without the final newline.\<close>

definition msg_non_manifold :: string where
  "msg_non_manifold = ''[SurfaceTriangulation] Non-manifold polygon''"

definition msg_should_not_happen :: string where
  "msg_should_not_happen = ''[SurfaceTriangulation] This should not happen...''"

text \<open>An \<^verbatim>\<open>int\<close> index inside a vector, and the entry \<open>[i][k]\<close> of a table read and
  written.\<close>

definition in_range :: "int \<Rightarrow> 'a list \<Rightarrow> bool" where
  "in_range i xs = (0 \<le> i \<and> i < int (length xs))"

definition get2 :: "'a list list \<Rightarrow> nat \<Rightarrow> nat \<Rightarrow> 'a" where
  "get2 t i k = t ! i ! k"

definition set2 :: "'a list list \<Rightarrow> nat \<Rightarrow> nat \<Rightarrow> 'a \<Rightarrow> 'a list list" where
  "set2 t i k v = t[i := (t ! i)[k := v]]"

subsection \<open>Edge tests and the weight of a triangle\<close>

text \<open>\<^verbatim>\<open>is_edge\<close> and \<^verbatim>\<open>is_interior_edge\<close> (the latter is called nowhere).\<close>

definition is_edge :: "SurfaceTriangulation \<Rightarrow> Vertex \<Rightarrow> Vertex \<Rightarrow> bool" where
  "is_edge s a b = (find_halfedge (m_mesh s) a b \<noteq> None)"

definition is_interior_edge :: "SurfaceTriangulation \<Rightarrow> Vertex \<Rightarrow> Vertex \<Rightarrow> bool" where
  "is_interior_edge s a b =
     (case find_halfedge (m_mesh s) a b of
        None \<Rightarrow> False
      | Some h \<Rightarrow> \<not> is_boundary (m_mesh s) h
                 \<and> \<not> is_boundary (m_mesh s) (opposite_halfedge (m_mesh s) h))"

text \<open>The test at the head of \<^verbatim>\<open>compute_weight\<close>: all three sides are edges of the mesh.\<close>

definition all_edges_exist :: "SurfaceTriangulation \<Rightarrow> Vertex \<Rightarrow> Vertex \<Rightarrow> Vertex \<Rightarrow> bool" where
  "all_edges_exist s a b c = (is_edge s a b \<and> is_edge s b c \<and> is_edge s c a)"

text \<open>The \<^verbatim>\<open>switch (objective_)\<close> of \<^verbatim>\<open>compute_weight\<close>, which has no default
  case: \<open>w\<close> keeps its initial value for any other selector.\<close>

definition geometric_weight :: "Objective \<Rightarrow> Point \<Rightarrow> Point \<Rightarrow> Point \<Rightarrow> Scalar" where
  "geometric_weight ob pa pb pc =
     (if ob = MIN_AREA then sqrnorm (cross (psub pb pa) (psub pc pa))
      else if ob = MAX_ANGLE then
        (let cosa = dot (normalize (psub pb pa)) (normalize (psub pc pa));
             cosb = dot (normalize (psub pa pb)) (normalize (psub pc pb));
             cosc = dot (normalize (psub pa pc)) (normalize (psub pb pc))
         in std_max cosa (std_max cosb cosc))
      else scalar_max)"

text \<open>\<^verbatim>\<open>compute_weight(i, j, k)\<close>. The planner calls it with \<open>i < j < k < n\<close>, inside
  \<open>m_vertices\<close>.\<close>

definition compute_weight :: "SurfaceTriangulation \<Rightarrow> nat \<Rightarrow> nat \<Rightarrow> nat \<Rightarrow> Scalar" where
  "compute_weight s i j k =
     (let a = m_vertices s ! i;
          b = m_vertices s ! j;
          c = m_vertices s ! k
      in if all_edges_exist s a b c then scalar_max
         else geometric_weight (m_objective s)
                (position (m_mesh s) a) (position (m_mesh s) b) (position (m_mesh s) c))"

subsection \<open>Inserting one diagonal\<close>

text \<open>
  The two loops of \<^verbatim>\<open>insert_edge\<close>,
  \<^verbatim>\<open>do { h = next(h); if (to_vertex(h) == v) found; } while (h != h0)\<close>:
  \<open>Some (Some h)\<close> is the halfedge found, \<open>Some None\<close> a walk that came back to \<open>h0\<close>
  without finding the vertex, \<open>None\<close> a walk that never ends.
\<close>

partial_function (option) reach :: "SurfaceMesh \<Rightarrow> Halfedge \<Rightarrow> Vertex \<Rightarrow> Halfedge \<Rightarrow> Halfedge option option" where
  "reach m h0 v h =
     (if to_vertex m (next_halfedge m h) = v then Some (Some (next_halfedge m h))
      else if next_halfedge m h \<noteq> h0 then reach m h0 v (next_halfedge m h)
      else Some None)"

text \<open>\<^verbatim>\<open>insert_edge(i, j)\<close>. It starts by reading \<^verbatim>\<open>halfedges_\<close> and \<^verbatim>\<open>vertices_\<close> at
  both indices; an index outside either vector is the fault.\<close>

definition insert_edge :: "SurfaceTriangulation \<Rightarrow> int \<Rightarrow> int \<Rightarrow> (fault + bool \<times> SurfaceTriangulation) option" where
  "insert_edge s i j =
     (if \<not> (in_range i (m_halfedges s) \<and> in_range j (m_halfedges s)
            \<and> in_range i (m_vertices s) \<and> in_range j (m_vertices s))
      then Some (Inl OutOfRange)
      else
        let h0 = m_halfedges s ! nat i;
            h1 = m_halfedges s ! nat j;
            v0 = m_vertices s ! nat i;
            v1 = m_vertices s ! nat j
        in if find_halfedge (m_mesh s) v0 v1 \<noteq> None then Some (Inr (False, s))
           else
             (case reach (m_mesh s) h0 v1 h0 of
                None \<Rightarrow> None
              | Some (Some h) \<Rightarrow>
                  Some (Inr (True, s\<lparr>m_mesh := mesh_insert_edge (m_mesh s) h0 h\<rparr>))
              | Some None \<Rightarrow>
                  (case reach (m_mesh s) h1 v0 h1 of
                     None \<Rightarrow> None
                   | Some (Some h) \<Rightarrow>
                       Some (Inr (True, s\<lparr>m_mesh := mesh_insert_edge (m_mesh s) h1 h\<rparr>))
                   | Some None \<Rightarrow>
                       Some (Inr (False, s\<lparr>cerr := cerr s @ [msg_should_not_happen]\<rparr>)))))"

subsection \<open>Collecting the polygon\<close>

text \<open>
  The \<^verbatim>\<open>do ... while ((h = next_halfedge(h)) != h0)\<close> loop at the head of
  \<^verbatim>\<open>triangulate(Face, Objective)\<close>. The flag is \<open>False\<close> when the loop returned at a
  non-manifold vertex.
\<close>

partial_function (option) collect :: "SurfaceTriangulation \<Rightarrow> Halfedge \<Rightarrow> Halfedge \<Rightarrow> (bool \<times> SurfaceTriangulation) option" where
  "collect s h0 h =
     (if \<not> is_manifold (m_mesh s) (to_vertex (m_mesh s) h)
      then Some (False, s\<lparr>cerr := cerr s @ [msg_non_manifold]\<rparr>)
      else if next_halfedge (m_mesh s) h \<noteq> h0
      then collect (s\<lparr>m_halfedges := m_halfedges s @ [h],
                      m_vertices := m_vertices s @ [to_vertex (m_mesh s) h]\<rparr>)
                   h0 (next_halfedge (m_mesh s) h)
      else Some (True, s\<lparr>m_halfedges := m_halfedges s @ [h],
                         m_vertices := m_vertices s @ [to_vertex (m_mesh s) h]\<rparr>))"

subsection \<open>The planner: dynamic programming over sub-ranges\<close>

text \<open>
  The loops keep \<open>i + j < n\<close> and \<open>i < m < k = i + j\<close>, so every table entry they read
  or write, and every vertex \<open>compute_weight\<close> looks up, is inside the \<open>n \<times> n\<close> tables
  and the \<open>n\<close> collected vertices; these accesses are written without a check.
\<close>

text \<open>The \<^verbatim>\<open>switch (objective_)\<close> in the innermost loop: the cost of splitting
  \<open>[i, k]\<close> at \<open>m\<close>, or \<^verbatim>\<open>exit(1)\<close>.\<close>

definition split_cost :: "SurfaceTriangulation \<Rightarrow> nat \<Rightarrow> nat \<Rightarrow> nat \<Rightarrow> fault + Scalar" where
  "split_cost s i m k =
     (if m_objective s = MIN_AREA
      then Inr (get2 (m_weight s) i m + compute_weight s i m k + get2 (m_weight s) m k)
      else if m_objective s = MAX_ANGLE
      then Inr (std_max (get2 (m_weight s) i m)
                  (std_max (compute_weight s i m k) (get2 (m_weight s) m k)))
      else Inl (Exit 1))"

text \<open>\<^verbatim>\<open>for (m = i + 1; m < k; ++m)\<close>, carrying \<open>wmin\<close> and \<open>imin\<close>.\<close>

function find_split :: "SurfaceTriangulation \<Rightarrow> nat \<Rightarrow> nat \<Rightarrow> nat \<Rightarrow> Scalar \<Rightarrow> int \<Rightarrow> fault + Scalar \<times> int" where
  "find_split s i k m wmin imin =
     (if m < k then
        (case split_cost s i m k of
           Inl e \<Rightarrow> Inl e
         | Inr w \<Rightarrow>
             if w < wmin then find_split s i k (Suc m) w (int m)
             else find_split s i k (Suc m) wmin imin)
      else Inr (wmin, imin))"
  by pat_completeness auto
termination
  by (relation "measure (\<lambda>(s, i, k, m, wmin, imin). k - m)") auto

declare find_split.simps [simp del]

text \<open>\<^verbatim>\<open>for (i = 0; i < n - j; ++i)\<close>: all ranges \<open>[i, i + j]\<close>.\<close>

function ngons :: "SurfaceTriangulation \<Rightarrow> nat \<Rightarrow> nat \<Rightarrow> nat \<Rightarrow> fault + SurfaceTriangulation" where
  "ngons s n j i =
     (if i + j < n then
        (case find_split s i (i + j) (Suc i) scalar_max (- 1) of
           Inl e \<Rightarrow> Inl e
         | Inr (wmin, imin) \<Rightarrow>
             ngons (s\<lparr>m_weight := set2 (m_weight s) i (i + j) wmin,
                      m_index := set2 (m_index s) i (i + j) imin\<rparr>) n j (Suc i))
      else Inr s)"
  by pat_completeness auto
termination
  by (relation "measure (\<lambda>(s, n, j, i). n - i)") auto

declare ngons.simps [simp del]

text \<open>\<^verbatim>\<open>for (j = 2; j < n; ++j)\<close>.\<close>

function all_ngons :: "SurfaceTriangulation \<Rightarrow> nat \<Rightarrow> nat \<Rightarrow> fault + SurfaceTriangulation" where
  "all_ngons s n j =
     (if j < n then
        (case ngons s n j 0 of
           Inl e \<Rightarrow> Inl e
         | Inr s' \<Rightarrow> all_ngons s' n (Suc j))
      else Inr s)"
  by pat_completeness auto
termination
  by (relation "measure (\<lambda>(s, n, j). n - j)") auto

declare all_ngons.simps [simp del]

text \<open>\<^verbatim>\<open>for (i = 0; i < n - 1; ++i)\<close>: the 2-gons.\<close>

function init_2gons :: "SurfaceTriangulation \<Rightarrow> nat \<Rightarrow> nat \<Rightarrow> SurfaceTriangulation" where
  "init_2gons s n i =
     (if Suc i < n then
        init_2gons (s\<lparr>m_weight := set2 (m_weight s) i (Suc i) 0,
                      m_index := set2 (m_index s) i (Suc i) (- 1)\<rparr>) n (Suc i)
      else s)"
  by pat_completeness auto
termination
  by (relation "measure (\<lambda>(s, n, i). n - i)") auto

declare init_2gons.simps [simp del]

text \<open>The planning phase for a collected polygon of \<open>n\<close> vertices: both tables are
  resized to \<open>n \<times> n\<close> and filled.\<close>

definition plan :: "SurfaceTriangulation \<Rightarrow> nat \<Rightarrow> fault + SurfaceTriangulation" where
  "plan s n =
     all_ngons
       (init_2gons (s\<lparr>m_weight := replicate n (replicate n scalar_max),
                      m_index := replicate n (replicate n 0)\<rparr>) n 0)
       n 2"

subsection \<open>The commit phase\<close>

text \<open>\<^verbatim>\<open>index_[start][end]\<close> with the bounds of both vectors checked.\<close>

definition split_at :: "SurfaceTriangulation \<Rightarrow> int \<Rightarrow> int \<Rightarrow> fault + int" where
  "split_at s start stop =
     (if in_range start (m_index s) \<and> in_range stop (m_index s ! nat start)
      then Inr (get2 (m_index s) (nat start) (nat stop))
      else Inl OutOfRange)"

text \<open>
  \<^verbatim>\<open>while (!todo.empty())\<close>. The head of the list is the back of the vector
  \<^verbatim>\<open>todo\<close>.
\<close>

partial_function (option) commit :: "SurfaceTriangulation \<Rightarrow> (int \<times> int) list \<Rightarrow> (fault + SurfaceTriangulation) option" where
  "commit s todo =
     (case todo of
        [] \<Rightarrow> Some (Inr s)
      | tri # rest \<Rightarrow>
          if snd tri - fst tri < 2 then commit s rest
          else
            (case split_at s (fst tri) (snd tri) of
               Inl e \<Rightarrow> Some (Inl e)
             | Inr split \<Rightarrow>
                 (case insert_edge s (fst tri) split of
                    None \<Rightarrow> None
                  | Some (Inl e) \<Rightarrow> Some (Inl e)
                  | Some (Inr (b1, s1)) \<Rightarrow>
                      (case insert_edge s1 split (snd tri) of
                         None \<Rightarrow> None
                       | Some (Inl e) \<Rightarrow> Some (Inl e)
                       | Some (Inr (b2, s2)) \<Rightarrow>
                           commit s2 ((split, snd tri) # (fst tri, split) # rest)))))"

subsection \<open>Triangulating a face, and all faces\<close>

definition clean_up :: "SurfaceTriangulation \<Rightarrow> SurfaceTriangulation" where
  "clean_up s = s\<lparr>m_weight := [], m_index := [], m_halfedges := [], m_vertices := []\<rparr>"

text \<open>The first half of \<^verbatim>\<open>triangulate(Face, Objective)\<close>: the objective is stored
  and the polygon collected.\<close>

definition collect_polygon :: "SurfaceTriangulation \<Rightarrow> Face \<Rightarrow> Objective \<Rightarrow> (bool \<times> SurfaceTriangulation) option" where
  "collect_polygon s f ob =
     collect (s\<lparr>m_objective := ob, m_halfedges := [], m_vertices := []\<rparr>)
       (halfedge (m_mesh s) f) (halfedge (m_mesh s) f)"

text \<open>
  \<^verbatim>\<open>triangulate(Face, Objective)\<close>. \<open>n\<close> is the length of \<open>m_halfedges\<close>; the source
  converts the size to \<^verbatim>\<open>int\<close>, which the model takes to be exact. An early return
  leaves the collected members as they are; only a completed call clears them.
\<close>

definition triangulate :: "SurfaceTriangulation \<Rightarrow> Face \<Rightarrow> Objective \<Rightarrow> (fault + SurfaceTriangulation) option" where
  "triangulate s f ob =
     (case collect_polygon s f ob of
        None \<Rightarrow> None
      | Some (False, s1) \<Rightarrow> Some (Inr s1)
      | Some (True, s1) \<Rightarrow>
          if length (m_halfedges s1) \<le> 3 then Some (Inr s1)
          else
            (case plan s1 (length (m_halfedges s1)) of
               Inl e \<Rightarrow> Some (Inl e)
             | Inr s2 \<Rightarrow>
                 (case commit s2 [(0, int (length (m_halfedges s1)) - 1)] of
                    None \<Rightarrow> None
                  | Some (Inl e) \<Rightarrow> Some (Inl e)
                  | Some (Inr s3) \<Rightarrow> Some (Inr (clean_up s3)))))"

text \<open>\<^verbatim>\<open>for (auto f : mesh_.faces()) triangulate(f, o)\<close>.\<close>

fun triangulate_faces :: "SurfaceTriangulation \<Rightarrow> Face list \<Rightarrow> Objective \<Rightarrow> (fault + SurfaceTriangulation) option" where
  "triangulate_faces s [] ob = Some (Inr s)"
| "triangulate_faces s (f # fs) ob =
     (case triangulate s f ob of
        None \<Rightarrow> None
      | Some (Inl e) \<Rightarrow> Some (Inl e)
      | Some (Inr s') \<Rightarrow> triangulate_faces s' fs ob)"

definition triangulate_all :: "SurfaceTriangulation \<Rightarrow> Objective \<Rightarrow> (fault + SurfaceTriangulation) option" where
  "triangulate_all s ob = triangulate_faces s (faces (m_mesh s)) ob"

section \<open>Vocabulary of the properties\<close>

text \<open>The face loop through \<open>h0\<close> has exactly \<open>n\<close> halfedges: \<open>n\<close> steps of
  \<open>next_halfedge\<close> lead back to \<open>h0\<close>, and no fewer do.\<close>

definition loop_length :: "SurfaceMesh \<Rightarrow> Halfedge \<Rightarrow> nat \<Rightarrow> bool" where
  "loop_length m h0 n =
     (0 < n \<and> (next_halfedge m ^^ n) h0 = h0
      \<and> (\<forall>k \<in> set [1..<n]. (next_halfedge m ^^ k) h0 \<noteq> h0))"

text \<open>The state after the halfedges \<open>hs\<close> and their target vertices were pushed.\<close>

definition push_polygon :: "SurfaceTriangulation \<Rightarrow> Halfedge list \<Rightarrow> SurfaceTriangulation" where
  "push_polygon s hs =
     s\<lparr>m_halfedges := m_halfedges s @ hs,
       m_vertices := m_vertices s @ map (to_vertex (m_mesh s)) hs\<rparr>"

text \<open>The first \<open>n\<close> halfedges met from \<open>h\<close> on.\<close>

definition walk_from :: "SurfaceMesh \<Rightarrow> Halfedge \<Rightarrow> nat \<Rightarrow> Halfedge list" where
  "walk_from m h n = map (\<lambda>k. (next_halfedge m ^^ k) h) [0..<n]"

text \<open>Some halfedge among the \<open>n\<close> that follow \<open>h0\<close> on its loop points to \<open>v\<close>: what
  a walk of \<^verbatim>\<open>insert_edge\<close> looks for.\<close>

definition target_on_loop :: "SurfaceMesh \<Rightarrow> Halfedge \<Rightarrow> nat \<Rightarrow> Vertex \<Rightarrow> bool" where
  "target_on_loop m h0 n v =
     (\<exists>k \<in> set [1..<Suc n]. to_vertex m ((next_halfedge m ^^ k) h0) = v)"

text \<open>The first halfedge among the \<open>n\<close> that follow \<open>h0\<close> on its loop that points to \<open>v\<close>,
  if there is one.\<close>

definition first_on_loop :: "SurfaceMesh \<Rightarrow> Halfedge \<Rightarrow> nat \<Rightarrow> Vertex \<Rightarrow> Halfedge option" where
  "first_on_loop m h0 n v =
     find (\<lambda>h. to_vertex m h = v) (map (\<lambda>k. (next_halfedge m ^^ k) h0) [1..<Suc n])"

text \<open>The spec's words for the weights: the cosine at \<open>p\<close> between the edges to \<open>q\<close> and
  \<open>r\<close> is "the dot product of the two normalized edge vectors at that vertex".\<close>

definition cos_at :: "Point \<Rightarrow> Point \<Rightarrow> Point \<Rightarrow> Scalar" where
  "cos_at p q r = dot (normalize (psub q p)) (normalize (psub r p))"

text \<open>"Squared magnitude of the cross product of \<open>(b-a)\<close> and \<open>(c-a)\<close>".\<close>

definition spec_area_weight :: "Point \<Rightarrow> Point \<Rightarrow> Point \<Rightarrow> Scalar" where
  "spec_area_weight a b c = sqrnorm (cross (psub b a) (psub c a))"

text \<open>"The maximum, over the triangle's three interior angles, of the cosine of that
  angle".\<close>

definition spec_angle_weight :: "Point \<Rightarrow> Point \<Rightarrow> Point \<Rightarrow> Scalar" where
  "spec_angle_weight a b c = Max {cos_at a b c, cos_at b a c, cos_at c a b}"

text \<open>The pair \<open>(a, b)\<close> is an edge of the mesh: some halfedge runs from \<open>a\<close> to \<open>b\<close>.\<close>

definition edge_in_mesh :: "SurfaceMesh \<Rightarrow> Vertex \<Rightarrow> Vertex \<Rightarrow> bool" where
  "edge_in_mesh m a b =
     (\<exists>h < halfedges_size m. from_vertex m h = a \<and> to_vertex m h = b)"

text \<open>The combined cost of splitting \<open>[i, k]\<close> at \<open>m\<close>, in the spec's words: the sum of
  the two sub-costs and the triangle's weight under the area objective, their
  maximum under the angle objective.\<close>

definition candidate_cost :: "SurfaceTriangulation \<Rightarrow> nat \<Rightarrow> nat \<Rightarrow> nat \<Rightarrow> Scalar" where
  "candidate_cost s i m k =
     (if m_objective s = MIN_AREA
      then get2 (m_weight s) i m + compute_weight s i m k + get2 (m_weight s) m k
      else max (get2 (m_weight s) i m)
             (max (compute_weight s i m k) (get2 (m_weight s) m k)))"

text \<open>A table of \<open>n\<close> rows of length \<open>n\<close>.\<close>

definition square :: "'a list list \<Rightarrow> nat \<Rightarrow> bool" where
  "square t n = (length t = n \<and> (\<forall>r < n. length (t ! r) = n))"

text \<open>What the innermost loop returns for the range \<open>[i, k]\<close>.\<close>

definition best_split :: "SurfaceTriangulation \<Rightarrow> nat \<Rightarrow> nat \<Rightarrow> Scalar \<times> int" where
  "best_split s i k = projr (find_split s i k (Suc i) scalar_max (- 1))"

text \<open>
  The cost \<open>w\<close> and split \<open>im\<close> of a range agree with its candidates: \<open>w\<close> is below
  every candidate's cost and below the maximum representable value; when some
  candidate is strictly below that value, \<open>im\<close> is the first candidate whose cost is
  \<open>w\<close>; otherwise \<open>w\<close> is that value and \<open>im\<close> the sentinel.
\<close>

definition dp_entry :: "SurfaceTriangulation \<Rightarrow> nat \<Rightarrow> nat \<Rightarrow> Scalar \<Rightarrow> int \<Rightarrow> bool" where
  "dp_entry s i k w im =
     (w \<le> scalar_max
      \<and> (\<forall>m. i < m \<and> m < k \<longrightarrow> w \<le> candidate_cost s i m k)
      \<and> (if \<exists>m. i < m \<and> m < k \<and> candidate_cost s i m k < scalar_max
         then \<exists>m0. i < m0 \<and> m0 < k \<and> im = int m0 \<and> candidate_cost s i m0 k = w
                \<and> (\<forall>m. i < m \<and> m < m0 \<longrightarrow> w < candidate_cost s i m k)
         else w = scalar_max \<and> im = - 1))"

text \<open>Two states that differ at most in the two tables.\<close>

definition same_frame :: "SurfaceTriangulation \<Rightarrow> SurfaceTriangulation \<Rightarrow> bool" where
  "same_frame s s' =
     (m_mesh s' = m_mesh s \<and> m_objective s' = m_objective s
      \<and> m_halfedges s' = m_halfedges s \<and> m_vertices s' = m_vertices s \<and> cerr s' = cerr s)"

text \<open>Two states that agree on everything the planner reads and writes.\<close>

definition planner_view :: "SurfaceTriangulation \<Rightarrow> SurfaceTriangulation \<Rightarrow> bool" where
  "planner_view a b =
     (m_mesh a = m_mesh b \<and> m_objective a = m_objective b \<and> m_vertices a = m_vertices b
      \<and> m_weight a = m_weight b \<and> m_index a = m_index b)"

text \<open>\<open>next_halfedge\<close> permutes the halfedges of the mesh, so that every halfedge lies
  on a closed loop.\<close>

definition valid_loops :: "SurfaceMesh \<Rightarrow> bool" where
  "valid_loops m =
     (distinct (map (next_halfedge m) [0..<halfedges_size m])
      \<and> (\<forall>h \<in> set [0..<halfedges_size m]. next_halfedge m h < halfedges_size m))"

text \<open>
  What the commit phase needs of the collected polygon: the mesh's loops are closed,
  the collected halfedges are halfedges of the mesh, \<open>m_vertices\<close> holds their
  targets, and no vertex occurs twice (the polygon is simple).
\<close>

definition commit_ready :: "SurfaceTriangulation \<Rightarrow> bool" where
  "commit_ready s =
     (valid_loops (m_mesh s)
      \<and> (\<forall>h \<in> set (m_halfedges s). h < halfedges_size (m_mesh s))
      \<and> m_vertices s = map (to_vertex (m_mesh s)) (m_halfedges s)
      \<and> distinct (m_vertices s))"

text \<open>The precondition on the split table: it is \<open>n \<times> n\<close>, and every entry of a range
  \<open>(a, b)\<close> with \<open>b - a \<ge> 2\<close> lies strictly between \<open>a\<close> and \<open>b\<close>.\<close>

definition splits_inside :: "SurfaceTriangulation \<Rightarrow> nat \<Rightarrow> bool" where
  "splits_inside s n =
     (square (m_index s) n
      \<and> (\<forall>a b. a + 2 \<le> b \<and> b < n \<longrightarrow>
             int a < get2 (m_index s) a b \<and> get2 (m_index s) a b < int b))"

text \<open>What is left to do for a stack of ranges: a range of span \<open>d \<ge> 1\<close> stands for
  \<open>2d - 1\<close> iterations, any other for one.\<close>

definition todo_measure :: "(int \<times> int) list \<Rightarrow> nat" where
  "todo_measure todo = sum_list (map (\<lambda>tri. nat (max 1 (2 * (snd tri - fst tri) - 1))) todo)"

text \<open>
  Structural sanity of a half-edge mesh: the loops are closed; the reverse of a
  halfedge is another halfedge and the reverse of that is the halfedge itself; the
  next halfedge starts where the halfedge ends and bounds the same face; no two
  halfedges join the same ordered pair of vertices; and every face names one of its
  own halfedges.
\<close>

definition well_formed :: "SurfaceMesh \<Rightarrow> bool" where
  "well_formed m =
     (valid_loops m
      \<and> (\<forall>h \<in> set [0..<halfedges_size m].
            opposite_halfedge m h < halfedges_size m
            \<and> opposite_halfedge m h \<noteq> h
            \<and> opposite_halfedge m (opposite_halfedge m h) = h
            \<and> from_vertex m (next_halfedge m h) = to_vertex m h
            \<and> face m (next_halfedge m h) = face m h)
      \<and> distinct (map (\<lambda>h. (from_vertex m h, to_vertex m h)) [0..<halfedges_size m])
      \<and> (\<forall>f \<in> set [0..<faces_size m].
            halfedge m f < halfedges_size m \<and> face m (halfedge m f) = Some f))"

text \<open>No halfedge is on the boundary; then no vertex has a gap in its fan of faces,
  and every vertex is manifold in the library's sense.\<close>

definition closed_mesh :: "SurfaceMesh \<Rightarrow> bool" where
  "closed_mesh m = (\<forall>h \<in> set [0..<halfedges_size m]. \<not> is_boundary m h)"

section \<open>Example meshes\<close>

text \<open>
  Small meshes on which the theorems below are instantiated: a single triangle, a
  single quad, two quads that share only vertex 2 (which is therefore not
  manifold), a closed mesh of a quad and two triangles that has the edge between
  the quad's vertices 0 and 2, and a closed mesh of genus one whose quad face
  \<open>(0, 1, 2, 3)\<close> has both of its diagonals as edges elsewhere. Halfedge \<open>2e\<close> and
  \<open>2e + 1\<close> are the two directions of edge \<open>e\<close>.
\<close>

definition triangle_mesh :: SurfaceMesh where
  "triangle_mesh =
     \<lparr> halfedges_size = 6,
       faces_size = 1,
       to_vertex = (\<lambda>h. [1, 0, 2, 1, 0, 2] ! h),
       next_halfedge = (\<lambda>h. [2, 5, 4, 1, 0, 3] ! h),
       opposite_halfedge = (\<lambda>h. [1, 0, 3, 2, 5, 4] ! h),
       halfedge = (\<lambda>f. [4] ! f),
       face = (\<lambda>h. [Some 0, None, Some 0, None, Some 0, None] ! h),
       is_manifold = (\<lambda>v. True),
       position = (\<lambda>v. [(0, 0, 0), (1, 0, 0), (1, 1, 0)] ! v) \<rparr>"

definition quad_mesh :: SurfaceMesh where
  "quad_mesh =
     \<lparr> halfedges_size = 8,
       faces_size = 1,
       to_vertex = (\<lambda>h. [1, 0, 2, 1, 3, 2, 0, 3] ! h),
       next_halfedge = (\<lambda>h. [2, 7, 4, 1, 6, 3, 0, 5] ! h),
       opposite_halfedge = (\<lambda>h. [1, 0, 3, 2, 5, 4, 7, 6] ! h),
       halfedge = (\<lambda>f. [6] ! f),
       face = (\<lambda>h. [Some 0, None, Some 0, None, Some 0, None, Some 0, None] ! h),
       is_manifold = (\<lambda>v. True),
       position = (\<lambda>v. [(0, 0, 0), (1, 0, 0), (1, 1, 0), (0, 1, 0)] ! v) \<rparr>"

definition bowtie_mesh :: SurfaceMesh where
  "bowtie_mesh =
     \<lparr> halfedges_size = 16,
       faces_size = 2,
       to_vertex = (\<lambda>h. [1, 0, 2, 1, 3, 2, 0, 3, 4, 2, 5, 4, 6, 5, 2, 6] ! h),
       next_halfedge = (\<lambda>h. [2, 7, 4, 1, 6, 3, 0, 5, 10, 15, 12, 9, 14, 11, 8, 13] ! h),
       opposite_halfedge = (\<lambda>h. [1, 0, 3, 2, 5, 4, 7, 6, 9, 8, 11, 10, 13, 12, 15, 14] ! h),
       halfedge = (\<lambda>f. [6, 14] ! f),
       face = (\<lambda>h. [Some 0, None, Some 0, None, Some 0, None, Some 0, None, Some 1, None, Some 1, None, Some 1, None, Some 1, None] ! h),
       is_manifold = (\<lambda>v. v \<notin> set [2]),
       position = (\<lambda>v. [(0, 0, 0), (1, 0, 0), (1, 1, 0), (0, 1, 0), (2, 1, 0), (2, 2, 0), (1, 2, 0)] ! v) \<rparr>"

definition pillow_mesh :: SurfaceMesh where
  "pillow_mesh =
     \<lparr> halfedges_size = 10,
       faces_size = 3,
       to_vertex = (\<lambda>h. [1, 0, 2, 1, 3, 2, 0, 3, 2, 0] ! h),
       next_halfedge = (\<lambda>h. [2, 8, 4, 1, 6, 9, 0, 5, 3, 7] ! h),
       opposite_halfedge = (\<lambda>h. [1, 0, 3, 2, 5, 4, 7, 6, 9, 8] ! h),
       halfedge = (\<lambda>f. [6, 8, 9] ! f),
       face = (\<lambda>h. [Some 0, Some 1, Some 0, Some 1, Some 0, Some 2, Some 0, Some 2, Some 1, Some 2] ! h),
       is_manifold = (\<lambda>v. True),
       position = (\<lambda>v. [(0, 0, 0), (1, 0, 0), (1, 1, 0), (0, 1, 0)] ! v) \<rparr>"

definition torus_mesh :: SurfaceMesh where
  "torus_mesh =
     \<lparr> halfedges_size = 40,
       faces_size = 13,
       to_vertex = (\<lambda>h. [1, 0, 2, 1, 3, 2, 0, 3, 4, 3, 0, 4, 4, 2, 5, 4, 2, 5, 3, 5, 1, 3, 4, 1, 5, 1, 6, 5, 3, 6, 1, 6, 5, 0, 6, 0, 2, 6, 2, 0] ! h),
       next_halfedge = (\<lambda>h. [2, 32, 4, 31, 6, 17, 0, 8, 10, 20, 7, 13, 14, 39, 16, 23, 12, 18, 5, 26, 22, 29, 9, 24, 15, 1, 28, 33, 19, 30, 21, 36, 25, 34, 27, 38, 3, 35, 37, 11] ! h),
       opposite_halfedge = (\<lambda>h. [1, 0, 3, 2, 5, 4, 7, 6, 9, 8, 11, 10, 13, 12, 15, 14, 17, 16, 19, 18, 21, 20, 23, 22, 25, 24, 27, 26, 29, 28, 31, 30, 33, 32, 35, 34, 37, 36, 39, 38] ! h),
       halfedge = (\<lambda>f. [6, 10, 16, 5, 22, 15, 28, 21, 32, 27, 3, 37, 39] ! f),
       face = (\<lambda>h. [Some 0, Some 8, Some 0, Some 10, Some 0, Some 3, Some 0, Some 1, Some 1, Some 4, Some 1, Some 12, Some 2, Some 12, Some 2, Some 5, Some 2, Some 3, Some 3, Some 6, Some 4, Some 7, Some 4, Some 5, Some 5, Some 8, Some 6, Some 9, Some 6, Some 7, Some 7, Some 10, Some 8, Some 9, Some 9, Some 11, Some 10, Some 11, Some 11, Some 12] ! h),
       is_manifold = (\<lambda>v. True),
       position = (\<lambda>v. [(0, 0, 0), (1, 0, 0), (1, 1, 0), (0, 1, 0), (2, 0, 1), (2, 1, 1), (0, 2, 1)] ! v) \<rparr>"


text \<open>The constructor: the objective ends as \<^verbatim>\<open>MAX_ANGLE\<close>, the vectors are empty.\<close>

definition new_triangulation :: "SurfaceMesh \<Rightarrow> SurfaceTriangulation" where
  "new_triangulation m =
     \<lparr> m_mesh = m, m_objective = MAX_ANGLE, m_halfedges = [], m_vertices = [],
       m_weight = [], m_index = [], cerr = [] \<rparr>"

text \<open>The state after the quad \<open>(0, 1, 2, 3)\<close> was collected from halfedge 6.\<close>

definition collected_quad :: "SurfaceMesh \<Rightarrow> Objective \<Rightarrow> SurfaceTriangulation" where
  "collected_quad m ob =
     (new_triangulation m)\<lparr>m_objective := ob, m_halfedges := [6, 0, 2, 4],
                            m_vertices := [0, 1, 2, 3]\<rparr>"

text \<open>Halfedge 6 of the first quad of \<open>bowtie_mesh\<close> and halfedge 8 of the second, with
  their targets: two boundary entries that no face loop joins.\<close>

definition bowtie_pair :: SurfaceTriangulation where
  "bowtie_pair =
     (new_triangulation bowtie_mesh)\<lparr>m_halfedges := [6, 8], m_vertices := [0, 4]\<rparr>"

text \<open>The tables of a quad all of whose candidate triangles are rejected by the gate.\<close>

definition gated_tables :: "SurfaceTriangulation \<Rightarrow> SurfaceTriangulation" where
  "gated_tables s =
     s\<lparr>m_weight := [[scalar_max, 0, scalar_max, scalar_max],
                     [scalar_max, scalar_max, 0, scalar_max],
                     [scalar_max, scalar_max, scalar_max, 0],
                     [scalar_max, scalar_max, scalar_max, scalar_max]],
       m_index := [[0, - 1, - 1, - 1], [0, 0, - 1, - 1], [0, 0, 0, - 1], [0, 0, 0, 0]]\<rparr>"

text \<open>The tables of the quad of \<open>pillow_mesh\<close> under the area objective.\<close>

definition pillow_tables :: "SurfaceTriangulation \<Rightarrow> SurfaceTriangulation" where
  "pillow_tables s =
     s\<lparr>m_weight := [[scalar_max, 0, scalar_max, 2],
                     [scalar_max, scalar_max, 0, 1],
                     [scalar_max, scalar_max, scalar_max, 0],
                     [scalar_max, scalar_max, scalar_max, scalar_max]],
       m_index := [[0, - 1, - 1, 1], [0, 0, - 1, 2], [0, 0, 0, - 1], [0, 0, 0, 0]]\<rparr>"

text \<open>The tables of the quad of \<open>quad_mesh\<close> under the area objective.\<close>

definition quad_tables :: "SurfaceTriangulation \<Rightarrow> SurfaceTriangulation" where
  "quad_tables s =
     s\<lparr>m_weight := [[scalar_max, 0, 1, 2],
                     [scalar_max, scalar_max, 0, 1],
                     [scalar_max, scalar_max, scalar_max, 0],
                     [scalar_max, scalar_max, scalar_max, scalar_max]],
       m_index := [[0, - 1, 1, 1], [0, 0, - 1, 2], [0, 0, 0, - 1], [0, 0, 0, 0]]\<rparr>"

text \<open>A triangulation object that holds leftovers of earlier calls.\<close>

definition used_triangulation :: "SurfaceMesh \<Rightarrow> SurfaceTriangulation" where
  "used_triangulation m =
     \<lparr> m_mesh = m, m_objective = MIN_AREA, m_halfedges = [7, 7], m_vertices = [5],
       m_weight = [[1, 2]], m_index = [[3]], cerr = [msg_non_manifold] \<rparr>"

section \<open>Collecting the polygon\<close>

lemma push_polygon_simps [simp]:
  "m_mesh (push_polygon s hs) = m_mesh s"
  "m_objective (push_polygon s hs) = m_objective s"
  "m_weight (push_polygon s hs) = m_weight s"
  "m_index (push_polygon s hs) = m_index s"
  "cerr (push_polygon s hs) = cerr s"
  "m_halfedges (push_polygon s hs) = m_halfedges s @ hs"
  "m_vertices (push_polygon s hs) = m_vertices s @ map (to_vertex (m_mesh s)) hs"
  by (simp_all add: push_polygon_def)

lemma push_polygon_append:
  "push_polygon (push_polygon s hs) [h] = push_polygon s (hs @ [h])"
  by (simp add: push_polygon_def)

lemma walk_from_Suc: "walk_from m h (Suc k) = walk_from m h k @ [(next_halfedge m ^^ k) h]"
  by (simp add: walk_from_def)

lemma collect_step:
  assumes "is_manifold (m_mesh s) (to_vertex (m_mesh s) h)"
    and "next_halfedge (m_mesh s) h \<noteq> h0"
  shows "collect s h0 h = collect (push_polygon s [h]) h0 (next_halfedge (m_mesh s) h)"
  using assms by (subst collect.simps) (simp add: push_polygon_def)

lemma collect_run:
  assumes "\<And>j. j < k \<Longrightarrow> is_manifold (m_mesh s) (to_vertex (m_mesh s) ((next_halfedge (m_mesh s) ^^ j) h))"
    and "\<And>j. j < k \<Longrightarrow> (next_halfedge (m_mesh s) ^^ Suc j) h \<noteq> h0"
  shows "collect s h0 h =
         collect (push_polygon s (walk_from (m_mesh s) h k)) h0 ((next_halfedge (m_mesh s) ^^ k) h)"
  using assms
proof (induction k)
  case 0
  show ?case by (simp add: walk_from_def push_polygon_def)
next
  case (Suc k)
  have "collect s h0 h =
        collect (push_polygon s (walk_from (m_mesh s) h k)) h0 ((next_halfedge (m_mesh s) ^^ k) h)"
    using Suc by simp
  also have "\<dots> = collect (push_polygon (push_polygon s (walk_from (m_mesh s) h k)) [(next_halfedge (m_mesh s) ^^ k) h])
                      h0 ((next_halfedge (m_mesh s) ^^ Suc k) h)"
    using Suc.prems(1)[of k] Suc.prems(2)[of k]
    by (subst collect_step) simp_all
  finally show ?case
    by (simp add: push_polygon_append walk_from_Suc)
qed

lemma collect_closed:
  assumes len: "loop_length (m_mesh s) h0 n"
    and man: "\<And>j. j < n \<Longrightarrow> is_manifold (m_mesh s) (to_vertex (m_mesh s) ((next_halfedge (m_mesh s) ^^ j) h0))"
  shows "collect s h0 h0 = Some (True, push_polygon s (walk_from (m_mesh s) h0 n))"
proof -
  from len obtain k where n: "n = Suc k" by (cases n) (auto simp: loop_length_def)
  have ne: "(next_halfedge (m_mesh s) ^^ Suc j) h0 \<noteq> h0" if "j < k" for j
  proof -
    have "Suc j \<in> set [1..<n]" using that n by auto
    then show ?thesis using len unfolding loop_length_def by blast
  qed
  have "collect s h0 h0 =
        collect (push_polygon s (walk_from (m_mesh s) h0 k)) h0 ((next_halfedge (m_mesh s) ^^ k) h0)"
    by (rule collect_run) (use man ne n in auto)
  also have "\<dots> = Some (True, push_polygon (push_polygon s (walk_from (m_mesh s) h0 k)) [(next_halfedge (m_mesh s) ^^ k) h0])"
    using man[of k] len unfolding loop_length_def n
    by (subst collect.simps) (simp add: push_polygon_def)
  finally show ?thesis by (simp add: push_polygon_append walk_from_Suc n)
qed

lemma funpow_period:
  assumes "(f ^^ p) x = x"
  shows "(f ^^ (p + q)) x = (f ^^ q) x"
  using assms by (simp add: funpow_add add.commute[of p q])

lemma collect_non_manifold:
  assumes bad: "\<not> is_manifold (m_mesh s) (to_vertex (m_mesh s) ((next_halfedge (m_mesh s) ^^ k) h0))"
    and least: "\<And>j. j < k \<Longrightarrow> is_manifold (m_mesh s) (to_vertex (m_mesh s) ((next_halfedge (m_mesh s) ^^ j) h0))"
  shows "collect s h0 h0 =
         Some (False, (push_polygon s (walk_from (m_mesh s) h0 k))\<lparr>cerr := cerr s @ [msg_non_manifold]\<rparr>)"
proof -
  let ?nx = "next_halfedge (m_mesh s)"
  have ne: "(?nx ^^ Suc j) h0 \<noteq> h0" if "j < k" for j
  proof
    assume eq: "(?nx ^^ Suc j) h0 = h0"
    have "(?nx ^^ (Suc j + (k - Suc j))) h0 = (?nx ^^ (k - Suc j)) h0"
      by (rule funpow_period[OF eq])
    then have "(?nx ^^ k) h0 = (?nx ^^ (k - Suc j)) h0"
      using that by simp
    moreover have "k - Suc j < k" using that by simp
    ultimately show False using bad least[of "k - Suc j"] by simp
  qed
  have "collect s h0 h0 =
        collect (push_polygon s (walk_from (m_mesh s) h0 k)) h0 ((?nx ^^ k) h0)"
    by (rule collect_run) (use least ne in auto)
  also have "\<dots> = Some (False, (push_polygon s (walk_from (m_mesh s) h0 k))\<lparr>cerr := cerr s @ [msg_non_manifold]\<rparr>)"
    using bad by (subst collect.simps) simp
  finally show ?thesis .
qed

section \<open>Faces that are skipped, and the fatal objective\<close>

lemma init_2gons_frame [simp]:
  "m_objective (init_2gons s n i) = m_objective s"
  "m_mesh (init_2gons s n i) = m_mesh s"
  "m_halfedges (init_2gons s n i) = m_halfedges s"
  "m_vertices (init_2gons s n i) = m_vertices s"
  "cerr (init_2gons s n i) = cerr s"
  by (induction s n i rule: init_2gons.induct; subst init_2gons.simps; simp)+

lemma find_split_unknown_objective:
  assumes "m_objective s \<noteq> MIN_AREA" "m_objective s \<noteq> MAX_ANGLE" "m < k"
  shows "find_split s i k m wmin imin = Inl (Exit 1)"
  using assms by (subst find_split.simps) (simp add: split_cost_def)

lemma ngons_unknown_objective:
  assumes "m_objective s \<noteq> MIN_AREA" "m_objective s \<noteq> MAX_ANGLE" "i + j < n" "2 \<le> j"
  shows "ngons s n j i = Inl (Exit 1)"
proof -
  have "find_split s i (i + j) (Suc i) scalar_max (- 1) = Inl (Exit 1)"
    by (rule find_split_unknown_objective) (use assms in simp_all)
  then show ?thesis using assms(3) by (subst ngons.simps) simp
qed

lemma all_ngons_unknown_objective:
  assumes "m_objective s \<noteq> MIN_AREA" "m_objective s \<noteq> MAX_ANGLE" "j < n" "2 \<le> j"
  shows "all_ngons s n j = Inl (Exit 1)"
proof -
  have "ngons s n j 0 = Inl (Exit 1)"
    by (rule ngons_unknown_objective) (use assms in simp_all)
  then show ?thesis using assms(3) by (subst all_ngons.simps) simp
qed

lemma plan_unknown_objective:
  assumes "m_objective s \<noteq> MIN_AREA" "m_objective s \<noteq> MAX_ANGLE" "4 \<le> n"
  shows "plan s n = Inl (Exit 1)"
  unfolding plan_def
  by (rule all_ngons_unknown_objective) (use assms in simp_all)

lemma collect_polygon_closed:
  assumes "loop_length (m_mesh s) (halfedge (m_mesh s) f) n"
    and "\<And>j. j < n \<Longrightarrow> is_manifold (m_mesh s) (to_vertex (m_mesh s) ((next_halfedge (m_mesh s) ^^ j) (halfedge (m_mesh s) f)))"
  shows "collect_polygon s f ob =
         Some (True, push_polygon (s\<lparr>m_objective := ob, m_halfedges := [], m_vertices := []\<rparr>)
                       (walk_from (m_mesh s) (halfedge (m_mesh s) f) n))"
  unfolding collect_polygon_def
  using collect_closed[of "s\<lparr>m_objective := ob, m_halfedges := [], m_vertices := []\<rparr>" "halfedge (m_mesh s) f" n] assms
  by simp

lemma collect_polygon_non_manifold:
  assumes "\<not> is_manifold (m_mesh s) (to_vertex (m_mesh s) ((next_halfedge (m_mesh s) ^^ k) (halfedge (m_mesh s) f)))"
  shows "\<exists>j \<le> k. collect_polygon s f ob =
         Some (False, (push_polygon (s\<lparr>m_objective := ob, m_halfedges := [], m_vertices := []\<rparr>)
                       (walk_from (m_mesh s) (halfedge (m_mesh s) f) j))\<lparr>cerr := cerr s @ [msg_non_manifold]\<rparr>)"
proof -
  let ?bad = "\<lambda>k. \<not> is_manifold (m_mesh s) (to_vertex (m_mesh s) ((next_halfedge (m_mesh s) ^^ k) (halfedge (m_mesh s) f)))"
  define j where "j = (LEAST k. ?bad k)"
  have bj: "?bad j" unfolding j_def using assms by (rule LeastI)
  have lj: "\<And>i. i < j \<Longrightarrow> \<not> ?bad i" unfolding j_def by (rule not_less_Least)
  have jk: "j \<le> k" unfolding j_def using assms by (rule Least_le)
  have "collect_polygon s f ob =
         Some (False, (push_polygon (s\<lparr>m_objective := ob, m_halfedges := [], m_vertices := []\<rparr>)
                       (walk_from (m_mesh s) (halfedge (m_mesh s) f) j))\<lparr>cerr := cerr s @ [msg_non_manifold]\<rparr>)"
    unfolding collect_polygon_def
    using collect_non_manifold[of "s\<lparr>m_objective := ob, m_halfedges := [], m_vertices := []\<rparr>" j "halfedge (m_mesh s) f"] bj lj
    by simp
  with jk show ?thesis by blast
qed

lemma walk_from_length [simp]: "length (walk_from m h n) = n"
  by (simp add: walk_from_def)

lemma triangulate_non_manifold:
  assumes "\<not> is_manifold (m_mesh s) (to_vertex (m_mesh s) ((next_halfedge (m_mesh s) ^^ k) (halfedge (m_mesh s) f)))"
  shows "\<exists>s'. triangulate s f ob = Some (Inr s') \<and> m_mesh s' = m_mesh s
             \<and> m_weight s' = m_weight s \<and> m_index s' = m_index s
             \<and> cerr s' = cerr s @ [msg_non_manifold]"
proof -
  from collect_polygon_non_manifold[OF assms, of ob] obtain j where
    "collect_polygon s f ob =
         Some (False, (push_polygon (s\<lparr>m_objective := ob, m_halfedges := [], m_vertices := []\<rparr>)
                       (walk_from (m_mesh s) (halfedge (m_mesh s) f) j))\<lparr>cerr := cerr s @ [msg_non_manifold]\<rparr>)"
    by blast
  then show ?thesis by (simp add: triangulate_def)
qed

lemma triangulate_small:
  assumes len: "loop_length (m_mesh s) (halfedge (m_mesh s) f) n" and n: "n \<le> 3"
  shows "\<exists>s'. triangulate s f ob = Some (Inr s') \<and> m_mesh s' = m_mesh s"
proof (cases "\<forall>j<n. is_manifold (m_mesh s) (to_vertex (m_mesh s) ((next_halfedge (m_mesh s) ^^ j) (halfedge (m_mesh s) f)))")
  case True
  then show ?thesis
    using collect_polygon_closed[OF len, of ob] n by (simp add: triangulate_def)
next
  case False
  then obtain j where "\<not> is_manifold (m_mesh s) (to_vertex (m_mesh s) ((next_halfedge (m_mesh s) ^^ j) (halfedge (m_mesh s) f)))"
    by blast
  from triangulate_non_manifold[OF this, of ob] show ?thesis by blast
qed

lemma triangulate_faces_small:
  assumes "\<forall>f \<in> set fs. \<exists>n \<le> 3. loop_length (m_mesh s) (halfedge (m_mesh s) f) n"
  shows "\<exists>s'. triangulate_faces s fs ob = Some (Inr s') \<and> m_mesh s' = m_mesh s"
  using assms
proof (induction fs arbitrary: s)
  case Nil
  show ?case by simp
next
  case (Cons f fs)
  from Cons.prems obtain n where "n \<le> 3" "loop_length (m_mesh s) (halfedge (m_mesh s) f) n"
    by auto
  from triangulate_small[OF this(2) this(1), of ob] obtain s1 where
    s1: "triangulate s f ob = Some (Inr s1)" "m_mesh s1 = m_mesh s" by blast
  have "\<forall>f \<in> set fs. \<exists>n \<le> 3. loop_length (m_mesh s1) (halfedge (m_mesh s1) f) n"
    using Cons.prems s1(2) by simp
  from Cons.IH[OF this] s1 show ?case by simp
qed

text \<open>
  Claim C6. A face whose boundary loop has three or fewer halfedges is left alone by
  \<open>triangulate\<close> under any objective: the call returns and the mesh is the one it
  started with. Hence \<open>triangulate_all\<close> on a mesh whose faces all have at most three
  sides returns with the mesh unchanged.
\<close>

theorem small_faces_are_left_alone:
  "(loop_length (m_mesh s) (halfedge (m_mesh s) f) n \<and> n \<le> 3 \<longrightarrow>
      (\<exists>s'. triangulate s f ob = Some (Inr s') \<and> m_mesh s' = m_mesh s))
   \<and> ((\<forall>g \<in> set (faces (m_mesh s)). \<exists>k \<le> 3. loop_length (m_mesh s) (halfedge (m_mesh s) g) k) \<longrightarrow>
      (\<exists>s'. triangulate_all s ob = Some (Inr s') \<and> m_mesh s' = m_mesh s))"
  using triangulate_small[of s f n ob] triangulate_faces_small[of "faces (m_mesh s)" s ob]
  by (auto simp: triangulate_all_def)

text \<open>
  Claim C7. When some vertex met on the walk around the face is not manifold,
  \<open>triangulate\<close> returns normally (no fault, no divergence), with the mesh and both
  tables as they were and one diagnostic written, and the loop over the faces goes
  on with the remaining faces from that state.
\<close>

theorem non_manifold_face_is_skipped:
  assumes "\<not> is_manifold (m_mesh s) (to_vertex (m_mesh s) ((next_halfedge (m_mesh s) ^^ k) (halfedge (m_mesh s) f)))"
  shows "\<exists>s'. triangulate s f ob = Some (Inr s') \<and> m_mesh s' = m_mesh s
             \<and> m_weight s' = m_weight s \<and> m_index s' = m_index s
             \<and> cerr s' = cerr s @ [msg_non_manifold]
             \<and> triangulate_faces s (f # fs) ob = triangulate_faces s' fs ob"
proof -
  from triangulate_non_manifold[OF assms, of ob] obtain s' where
    "triangulate s f ob = Some (Inr s')" "m_mesh s' = m_mesh s"
    "m_weight s' = m_weight s" "m_index s' = m_index s" "cerr s' = cerr s @ [msg_non_manifold]"
    by blast
  then show ?thesis by simp
qed

text \<open>
  Claim C9. For a face of at least four manifold boundary vertices and an objective
  that is neither \<open>MIN_AREA\<close> nor \<open>MAX_ANGLE\<close>, \<open>triangulate\<close> ends in \<^verbatim>\<open>exit(1)\<close>.
\<close>

theorem unknown_objective_exits:
  assumes "ob \<noteq> MIN_AREA" and "ob \<noteq> MAX_ANGLE"
    and "loop_length (m_mesh s) (halfedge (m_mesh s) f) n" and "4 \<le> n"
    and "\<forall>j<n. is_manifold (m_mesh s) (to_vertex (m_mesh s) ((next_halfedge (m_mesh s) ^^ j) (halfedge (m_mesh s) f)))"
  shows "triangulate s f ob = Some (Inl (Exit 1))"
proof -
  let ?s1 = "push_polygon (s\<lparr>m_objective := ob, m_halfedges := [], m_vertices := []\<rparr>)
                       (walk_from (m_mesh s) (halfedge (m_mesh s) f) n)"
  have c: "collect_polygon s f ob = Some (True, ?s1)"
    using collect_polygon_closed[OF assms(3), of ob] assms(5) by simp
  have "plan ?s1 n = Inl (Exit 1)"
    by (rule plan_unknown_objective) (use assms in simp_all)
  then show ?thesis using c assms(4) by (simp add: triangulate_def)
qed

section \<open>The weight of a triangle and the insertion of a diagonal\<close>

lemma std_max_eq_max: "std_max a b = max a b"
  by (simp add: std_max_def max_def)

lemma is_edge_iff: "is_edge s a b \<longleftrightarrow> edge_in_mesh (m_mesh s) a b"
  by (auto simp: is_edge_def find_halfedge_def find_None_iff edge_in_mesh_def)

text \<open>
  Claim C3. \<open>compute_weight\<close> returns the maximum representable value in place of the
  geometric weight exactly when all three of \<open>(a, b)\<close>, \<open>(b, c)\<close>, \<open>(c, a)\<close> are edges of
  the mesh; with fewer existing edges the geometric weight is returned.
\<close>

theorem weight_gate:
  "compute_weight s i j k =
     (if edge_in_mesh (m_mesh s) (m_vertices s ! i) (m_vertices s ! j)
         \<and> edge_in_mesh (m_mesh s) (m_vertices s ! j) (m_vertices s ! k)
         \<and> edge_in_mesh (m_mesh s) (m_vertices s ! k) (m_vertices s ! i)
      then scalar_max
      else geometric_weight (m_objective s)
             (position (m_mesh s) (m_vertices s ! i))
             (position (m_mesh s) (m_vertices s ! j))
             (position (m_mesh s) (m_vertices s ! k)))"
  by (simp add: compute_weight_def all_edges_exist_def is_edge_iff Let_def)

text \<open>
  Claim C2. For a triangle that the gate lets through, the weight is the squared norm
  of the cross product of \<open>b - a\<close> and \<open>c - a\<close> under the area objective, and the
  maximum of the three corner cosines under the angle objective.
\<close>

theorem weight_of_admitted_triangle:
  assumes "\<not> all_edges_exist s (m_vertices s ! i) (m_vertices s ! j) (m_vertices s ! k)"
  shows "(m_objective s = MIN_AREA \<longrightarrow>
            compute_weight s i j k =
              spec_area_weight (position (m_mesh s) (m_vertices s ! i))
                (position (m_mesh s) (m_vertices s ! j)) (position (m_mesh s) (m_vertices s ! k)))
       \<and> (m_objective s = MAX_ANGLE \<longrightarrow>
            compute_weight s i j k =
              spec_angle_weight (position (m_mesh s) (m_vertices s ! i))
                (position (m_mesh s) (m_vertices s ! j)) (position (m_mesh s) (m_vertices s ! k)))"
  using assms
  by (simp add: compute_weight_def Let_def geometric_weight_def spec_area_weight_def
      spec_angle_weight_def cos_at_def std_max_eq_max MIN_AREA_def MAX_ANGLE_def max.assoc)

lemma reach_run:
  assumes "\<And>j. 0 < j \<Longrightarrow> j \<le> k \<Longrightarrow>
             to_vertex m ((next_halfedge m ^^ j) h) \<noteq> v \<and> (next_halfedge m ^^ j) h \<noteq> h0"
  shows "reach m h0 v h = reach m h0 v ((next_halfedge m ^^ k) h)"
  using assms
proof (induction k)
  case 0
  show ?case by simp
next
  case (Suc k)
  have "reach m h0 v h = reach m h0 v ((next_halfedge m ^^ k) h)"
    using Suc by simp
  also have "\<dots> = reach m h0 v ((next_halfedge m ^^ Suc k) h)"
    using Suc.prems[of "Suc k"] by (subst reach.simps) simp
  finally show ?case .
qed

lemma loop_length_ne:
  assumes "loop_length m h0 n" "0 < j" "j < n"
  shows "(next_halfedge m ^^ j) h0 \<noteq> h0"
proof -
  have "j \<in> set [1..<n]" using assms by auto
  then show ?thesis using assms(1) unfolding loop_length_def by blast
qed

lemma reach_found:
  assumes len: "loop_length m h0 n"
    and k: "0 < k" "k \<le> n" "to_vertex m ((next_halfedge m ^^ k) h0) = v"
    and first: "\<And>j. 0 < j \<Longrightarrow> j < k \<Longrightarrow> to_vertex m ((next_halfedge m ^^ j) h0) \<noteq> v"
  shows "reach m h0 v h0 = Some (Some ((next_halfedge m ^^ k) h0))"
proof -
  obtain k' where k': "k = Suc k'" using k(1) by (cases k) auto
  have "reach m h0 v h0 = reach m h0 v ((next_halfedge m ^^ k') h0)"
    by (rule reach_run) (use first loop_length_ne[OF len] k k' in auto)
  also have "\<dots> = Some (Some ((next_halfedge m ^^ k) h0))"
    using k(3) unfolding k' by (subst reach.simps) simp
  finally show ?thesis .
qed

lemma reach_not_found:
  assumes len: "loop_length m h0 n"
    and none: "\<And>j. 0 < j \<Longrightarrow> j \<le> n \<Longrightarrow> to_vertex m ((next_halfedge m ^^ j) h0) \<noteq> v"
  shows "reach m h0 v h0 = Some None"
proof -
  obtain k' where k': "n = Suc k'" using len by (cases n) (auto simp: loop_length_def)
  have closes: "(next_halfedge m ^^ Suc k') h0 = h0"
    using len unfolding loop_length_def k' by blast
  have "reach m h0 v h0 = reach m h0 v ((next_halfedge m ^^ k') h0)"
    by (rule reach_run) (use none loop_length_ne[OF len] k' in auto)
  also have "\<dots> = Some None"
    using none[of "Suc k'"] closes k' by (subst reach.simps) simp
  finally show ?thesis .
qed

lemma reach_cases:
  assumes len: "loop_length m h0 n"
  shows "if target_on_loop m h0 n v
         then \<exists>k. 0 < k \<and> k \<le> n \<and> to_vertex m ((next_halfedge m ^^ k) h0) = v
                \<and> reach m h0 v h0 = Some (Some ((next_halfedge m ^^ k) h0))
         else reach m h0 v h0 = Some None"
proof (cases "target_on_loop m h0 n v")
  case True
  let ?hit = "\<lambda>k. 0 < k \<and> to_vertex m ((next_halfedge m ^^ k) h0) = v"
  from True obtain k0 where k0s: "k0 \<in> set [1..<Suc n]"
      and k0v: "to_vertex m ((next_halfedge m ^^ k0) h0) = v"
    unfolding target_on_loop_def by blast
  have k0: "?hit k0" "k0 \<le> n" using k0s k0v by auto
  define k where "k = (LEAST k. ?hit k)"
  have hk: "?hit k" unfolding k_def using k0(1) by (rule LeastI)
  have kle: "k \<le> k0" unfolding k_def using k0(1) by (rule Least_le)
  have first: "\<And>j. 0 < j \<Longrightarrow> j < k \<Longrightarrow> to_vertex m ((next_halfedge m ^^ j) h0) \<noteq> v"
    using not_less_Least[of _ ?hit] unfolding k_def by blast
  have "reach m h0 v h0 = Some (Some ((next_halfedge m ^^ k) h0))"
    by (rule reach_found[OF len]) (use hk kle k0 first in auto)
  then show ?thesis using True hk kle k0 by auto
next
  case False
  then have "\<And>j. 0 < j \<Longrightarrow> j \<le> n \<Longrightarrow> to_vertex m ((next_halfedge m ^^ j) h0) \<noteq> v"
    by (auto simp: target_on_loop_def)
  from reach_not_found[OF len this] False show ?thesis by simp
qed

lemma mesh_insert_edge_size [simp]:
  "halfedges_size (mesh_insert_edge m a b) = halfedges_size m + 2"
  "faces_size (mesh_insert_edge m a b) = Suc (faces_size m)"
  by (simp_all add: mesh_insert_edge_def Let_def)

lemma mesh_insert_edge_neq [simp]: "mesh_insert_edge m a b \<noteq> m"
proof
  assume "mesh_insert_edge m a b = m"
  then have "halfedges_size (mesh_insert_edge m a b) = halfedges_size m" by simp
  then show False by simp
qed

lemma first_on_loop_None:
  "first_on_loop m h0 n v = None \<longleftrightarrow> \<not> target_on_loop m h0 n v"
  by (auto simp: first_on_loop_def target_on_loop_def find_None_iff)

lemma reach_first:
  assumes len: "loop_length m h0 n"
  shows "reach m h0 v h0 = Some (first_on_loop m h0 n v)"
proof (cases "first_on_loop m h0 n v")
  case None
  then have "\<And>j. 0 < j \<Longrightarrow> j \<le> n \<Longrightarrow> to_vertex m ((next_halfedge m ^^ j) h0) \<noteq> v"
    by (auto simp: first_on_loop_None target_on_loop_def)
  from reach_not_found[OF len this] None show ?thesis by simp
next
  case (Some h)
  let ?xs = "map (\<lambda>k. (next_halfedge m ^^ k) h0) [1..<Suc n]"
  from Some obtain a where a: "a < length ?xs" "to_vertex m (?xs ! a) = v" "h = ?xs ! a"
    "\<forall>b<a. to_vertex m (?xs ! b) \<noteq> v"
    unfolding first_on_loop_def find_Some_iff by blast
  have an: "a < n" using a(1) by (simp del: upt_Suc)
  have nth: "?xs ! b = (next_halfedge m ^^ Suc b) h0" if "b < n" for b
    using that by (simp add: nth_map_upt del: funpow.simps upt_Suc)
  have k: "to_vertex m ((next_halfedge m ^^ Suc a) h0) = v"
    using a(2) nth[OF an] by simp
  have first: "to_vertex m ((next_halfedge m ^^ b) h0) \<noteq> v" if b0: "0 < b" and ba: "b < Suc a" for b
  proof -
    obtain b' where b': "b = Suc b'" using b0 by (cases b) auto
    with ba have "b' < a" by simp
    with a(4) have "to_vertex m (?xs ! b') \<noteq> v" by blast
    moreover have "b' < n" using \<open>b' < a\<close> an by simp
    ultimately show ?thesis using nth[of b'] b' by simp
  qed
  have "reach m h0 v h0 = Some (Some ((next_halfedge m ^^ Suc a) h0))"
    by (rule reach_found[OF len]) (use an k first in auto)
  then show ?thesis using Some a(3) nth[OF an] by simp
qed

lemma insert_edge_eval:
  assumes "in_range i (m_halfedges s)" and "in_range j (m_halfedges s)"
    and "in_range i (m_vertices s)" and "in_range j (m_vertices s)"
    and "loop_length (m_mesh s) (m_halfedges s ! nat i) n0"
    and "loop_length (m_mesh s) (m_halfedges s ! nat j) n1"
  shows "insert_edge s i j =
     Some (Inr
       (if find_halfedge (m_mesh s) (m_vertices s ! nat i) (m_vertices s ! nat j) \<noteq> None
        then (False, s)
        else
          (case first_on_loop (m_mesh s) (m_halfedges s ! nat i) n0 (m_vertices s ! nat j) of
             Some h \<Rightarrow>
               (True, s\<lparr>m_mesh := mesh_insert_edge (m_mesh s) (m_halfedges s ! nat i) h\<rparr>)
           | None \<Rightarrow>
               (case first_on_loop (m_mesh s) (m_halfedges s ! nat j) n1 (m_vertices s ! nat i) of
                  Some h \<Rightarrow>
                    (True, s\<lparr>m_mesh := mesh_insert_edge (m_mesh s) (m_halfedges s ! nat j) h\<rparr>)
                | None \<Rightarrow> (False, s\<lparr>cerr := cerr s @ [msg_should_not_happen]\<rparr>)))))"
  using assms(1-4)
  by (simp add: insert_edge_def Let_def reach_first[OF assms(5)] reach_first[OF assms(6)]
      split: option.split)

lemma mesh_insert_edge_joins:
  "edge_in_mesh (mesh_insert_edge m a b) (to_vertex m a) (to_vertex m b)"
  "edge_in_mesh (mesh_insert_edge m a b) (to_vertex m b) (to_vertex m a)"
proof -
  let ?m = "mesh_insert_edge m a b"
  let ?h4 = "halfedges_size m" and ?h5 = "Suc (halfedges_size m)"
  have "?h4 < halfedges_size ?m" "from_vertex ?m ?h4 = to_vertex m a" "to_vertex ?m ?h4 = to_vertex m b"
    by (simp_all add: mesh_insert_edge_def Let_def from_vertex_def)
  then show "edge_in_mesh ?m (to_vertex m a) (to_vertex m b)"
    unfolding edge_in_mesh_def by blast
  have "?h5 < halfedges_size ?m" "from_vertex ?m ?h5 = to_vertex m b" "to_vertex ?m ?h5 = to_vertex m a"
    by (simp_all add: mesh_insert_edge_def Let_def from_vertex_def)
  then show "edge_in_mesh ?m (to_vertex m b) (to_vertex m a)"
    unfolding edge_in_mesh_def by blast
qed

text \<open>
  Claim C8, as amended. For two valid boundary indices whose halfedges lie on closed
  loops, \<open>insert_edge\<close> returns, and it changes the mesh exactly when no edge joins the
  two vertices and one of the two walks meets its target; the flag it returns is
  true in that case and false in every other. The walk from the first index is tried
  first; the mesh becomes the one in which the library has inserted the edge between
  the boundary halfedge the walk started from and the first halfedge on the walk
  that points to the target. The insertion adds two halfedges and a face and writes
  no diagnostic, and when the two stored vertices are the targets of the two stored
  halfedges, the new mesh has an edge between them in both directions. When the
  edge exists the state is unchanged and the flag is false; when neither walk
  succeeds the flag is false and the only change is the diagnostic.
\<close>

theorem insert_edge_outcomes:
  assumes "in_range i (m_halfedges s)" and "in_range j (m_halfedges s)"
    and "in_range i (m_vertices s)" and "in_range j (m_vertices s)"
    and "loop_length (m_mesh s) (m_halfedges s ! nat i) n0"
    and "loop_length (m_mesh s) (m_halfedges s ! nat j) n1"
  shows "\<exists>b s'. insert_edge s i j = Some (Inr (b, s'))
     \<and> (m_mesh s' \<noteq> m_mesh s \<longleftrightarrow>
          find_halfedge (m_mesh s) (m_vertices s ! nat i) (m_vertices s ! nat j) = None
          \<and> (target_on_loop (m_mesh s) (m_halfedges s ! nat i) n0 (m_vertices s ! nat j)
             \<or> target_on_loop (m_mesh s) (m_halfedges s ! nat j) n1 (m_vertices s ! nat i)))
     \<and> (b \<longleftrightarrow> m_mesh s' \<noteq> m_mesh s)
     \<and> (find_halfedge (m_mesh s) (m_vertices s ! nat i) (m_vertices s ! nat j) \<noteq> None \<longrightarrow> s' = s)
     \<and> (find_halfedge (m_mesh s) (m_vertices s ! nat i) (m_vertices s ! nat j) = None
        \<and> target_on_loop (m_mesh s) (m_halfedges s ! nat i) n0 (m_vertices s ! nat j)
        \<longrightarrow> (\<exists>h. first_on_loop (m_mesh s) (m_halfedges s ! nat i) n0 (m_vertices s ! nat j) = Some h
                \<and> s' = s\<lparr>m_mesh := mesh_insert_edge (m_mesh s) (m_halfedges s ! nat i) h\<rparr>))
     \<and> (find_halfedge (m_mesh s) (m_vertices s ! nat i) (m_vertices s ! nat j) = None
        \<and> \<not> target_on_loop (m_mesh s) (m_halfedges s ! nat i) n0 (m_vertices s ! nat j)
        \<and> target_on_loop (m_mesh s) (m_halfedges s ! nat j) n1 (m_vertices s ! nat i)
        \<longrightarrow> (\<exists>h. first_on_loop (m_mesh s) (m_halfedges s ! nat j) n1 (m_vertices s ! nat i) = Some h
                \<and> s' = s\<lparr>m_mesh := mesh_insert_edge (m_mesh s) (m_halfedges s ! nat j) h\<rparr>))
     \<and> (find_halfedge (m_mesh s) (m_vertices s ! nat i) (m_vertices s ! nat j) = None
        \<and> \<not> target_on_loop (m_mesh s) (m_halfedges s ! nat i) n0 (m_vertices s ! nat j)
        \<and> \<not> target_on_loop (m_mesh s) (m_halfedges s ! nat j) n1 (m_vertices s ! nat i)
        \<longrightarrow> s' = s\<lparr>cerr := cerr s @ [msg_should_not_happen]\<rparr>)
     \<and> (m_mesh s' \<noteq> m_mesh s \<longrightarrow>
          halfedges_size (m_mesh s') = halfedges_size (m_mesh s) + 2
          \<and> faces_size (m_mesh s') = Suc (faces_size (m_mesh s))
          \<and> cerr s' = cerr s)
     \<and> (m_mesh s' \<noteq> m_mesh s
        \<and> m_vertices s ! nat i = to_vertex (m_mesh s) (m_halfedges s ! nat i)
        \<and> m_vertices s ! nat j = to_vertex (m_mesh s) (m_halfedges s ! nat j)
        \<longrightarrow> edge_in_mesh (m_mesh s') (m_vertices s ! nat i) (m_vertices s ! nat j)
            \<and> edge_in_mesh (m_mesh s') (m_vertices s ! nat j) (m_vertices s ! nat i))"
proof -
  let ?m = "m_mesh s"
  let ?h0 = "m_halfedges s ! nat i" and ?h1 = "m_halfedges s ! nat j"
  let ?v0 = "m_vertices s ! nat i" and ?v1 = "m_vertices s ! nat j"
  note ev = insert_edge_eval[OF assms]
  show ?thesis
  proof (cases "find_halfedge ?m ?v0 ?v1 = None")
    case False
    then have "insert_edge s i j = Some (Inr (False, s))" using ev by simp
    then show ?thesis using False by auto
  next
    case none: True
    show ?thesis
    proof (cases "first_on_loop ?m ?h0 n0 ?v1")
      case (Some h)
      then have t: "target_on_loop ?m ?h0 n0 ?v1"
        using first_on_loop_None[of ?m ?h0 n0 ?v1] by simp
      have hv: "to_vertex ?m h = ?v1"
        using Some unfolding first_on_loop_def find_Some_iff by blast
      have r: "insert_edge s i j = Some (Inr (True, s\<lparr>m_mesh := mesh_insert_edge ?m ?h0 h\<rparr>))"
        using ev none Some by simp
      have j: "edge_in_mesh (mesh_insert_edge ?m ?h0 h) (to_vertex ?m ?h0) ?v1"
        "edge_in_mesh (mesh_insert_edge ?m ?h0 h) ?v1 (to_vertex ?m ?h0)"
        using mesh_insert_edge_joins[of ?m ?h0 h] hv by simp_all
      show ?thesis using r none t Some j by auto
    next
      case f0: None
      then have nt: "\<not> target_on_loop ?m ?h0 n0 ?v1"
        using first_on_loop_None[of ?m ?h0 n0 ?v1] by simp
      show ?thesis
      proof (cases "first_on_loop ?m ?h1 n1 ?v0")
        case (Some h)
        then have t: "target_on_loop ?m ?h1 n1 ?v0"
          using first_on_loop_None[of ?m ?h1 n1 ?v0] by simp
        have hv: "to_vertex ?m h = ?v0"
          using Some unfolding first_on_loop_def find_Some_iff by blast
        have r: "insert_edge s i j = Some (Inr (True, s\<lparr>m_mesh := mesh_insert_edge ?m ?h1 h\<rparr>))"
          using ev none f0 Some by simp
        have j: "edge_in_mesh (mesh_insert_edge ?m ?h1 h) (to_vertex ?m ?h1) ?v0"
          "edge_in_mesh (mesh_insert_edge ?m ?h1 h) ?v0 (to_vertex ?m ?h1)"
          using mesh_insert_edge_joins[of ?m ?h1 h] hv by simp_all
        show ?thesis using r none nt t Some j by auto
      next
        case None
        then have nt1: "\<not> target_on_loop ?m ?h1 n1 ?v0"
          using first_on_loop_None[of ?m ?h1 n1 ?v0] by simp
        have "insert_edge s i j = Some (Inr (False, s\<lparr>cerr := cerr s @ [msg_should_not_happen]\<rparr>))"
          using ev none f0 None by simp
        then show ?thesis using none nt nt1 by auto
      qed
    qed
  qed
qed

section \<open>The early exits, the weights and the insertion on the example meshes\<close>

lemmas mesh_eval = from_vertex_def find_halfedge_def upt_rec numeral_eq_Suc

lemma loop_quad: "loop_length quad_mesh 6 4"
  by (simp add: loop_length_def quad_mesh_def mesh_eval)

text \<open>Claim C6 on the single triangle, under both objectives.\<close>

theorem small_faces_are_left_alone_witness:
  "loop_length triangle_mesh (halfedge triangle_mesh 0) 3
   \<and> (\<exists>s'. triangulate (new_triangulation triangle_mesh) 0 MIN_AREA = Some (Inr s')
            \<and> m_mesh s' = triangle_mesh)
   \<and> (\<exists>s'. triangulate_all (new_triangulation triangle_mesh) MAX_ANGLE = Some (Inr s')
            \<and> m_mesh s' = triangle_mesh)"
proof -
  have l: "loop_length triangle_mesh (halfedge triangle_mesh 0) 3"
    by (simp add: loop_length_def triangle_mesh_def mesh_eval)
  have m: "m_mesh (new_triangulation triangle_mesh) = triangle_mesh"
    by (simp add: new_triangulation_def)
  have f: "faces triangle_mesh = [0]"
    by (simp add: faces_def triangle_mesh_def)
  have a: "\<forall>g \<in> set (faces triangle_mesh). \<exists>k \<le> 3. loop_length triangle_mesh (halfedge triangle_mesh g) k"
    using l by (auto simp: f)
  show ?thesis
    using small_faces_are_left_alone [of "new_triangulation triangle_mesh" 0 3 MIN_AREA]
      small_faces_are_left_alone [of "new_triangulation triangle_mesh" 0 3 MAX_ANGLE] l a
    by (simp add: m)
qed

text \<open>Claim C7 on the first quad of the bow tie: its third vertex is not manifold.\<close>

theorem non_manifold_face_is_skipped_witness:
  "\<not> is_manifold bowtie_mesh (to_vertex bowtie_mesh ((next_halfedge bowtie_mesh ^^ 2) (halfedge bowtie_mesh 0)))
   \<and> (\<exists>s'. triangulate (new_triangulation bowtie_mesh) 0 MIN_AREA = Some (Inr s')
          \<and> m_mesh s' = bowtie_mesh \<and> m_weight s' = [] \<and> m_index s' = []
          \<and> cerr s' = [msg_non_manifold]
          \<and> triangulate_faces (new_triangulation bowtie_mesh) [0, 1] MIN_AREA
              = triangulate_faces s' [1] MIN_AREA)"
proof -
  have b: "\<not> is_manifold bowtie_mesh (to_vertex bowtie_mesh ((next_halfedge bowtie_mesh ^^ 2) (halfedge bowtie_mesh 0)))"
    by (simp add: bowtie_mesh_def mesh_eval)
  have m: "m_mesh (new_triangulation bowtie_mesh) = bowtie_mesh"
    "m_weight (new_triangulation bowtie_mesh) = []" "m_index (new_triangulation bowtie_mesh) = []"
    "cerr (new_triangulation bowtie_mesh) = []"
    by (simp_all add: new_triangulation_def)
  show ?thesis
    using non_manifold_face_is_skipped [of "new_triangulation bowtie_mesh" 2 0 MIN_AREA "[1]"] b
    by (simp add: m)
qed

text \<open>Claim C9 on the single quad, with the selector value 7.\<close>

theorem unknown_objective_exits_witness:
  "(7 :: Objective) \<noteq> MIN_AREA \<and> (7 :: Objective) \<noteq> MAX_ANGLE
   \<and> loop_length quad_mesh (halfedge quad_mesh 0) 4
   \<and> triangulate (new_triangulation quad_mesh) 0 7 = Some (Inl (Exit 1))"
proof -
  have o: "(7 :: Objective) \<noteq> MIN_AREA" "(7 :: Objective) \<noteq> MAX_ANGLE"
    by (simp_all add: MIN_AREA_def MAX_ANGLE_def)
  have m: "m_mesh (new_triangulation quad_mesh) = quad_mesh"
    by (simp add: new_triangulation_def)
  have h: "halfedge quad_mesh 0 = 6" by (simp add: quad_mesh_def)
  have man: "\<forall>j<4. is_manifold quad_mesh (to_vertex quad_mesh ((next_halfedge quad_mesh ^^ j) 6))"
    by (simp add: quad_mesh_def)
  show ?thesis
    using unknown_objective_exits [of 7 "new_triangulation quad_mesh" 0 4] o loop_quad man
    by (simp add: m h)
qed

text \<open>Claim C2 on the triangle \<open>(0, 1, 2)\<close> of the single quad, whose third side is not
  an edge.\<close>

theorem weight_of_admitted_triangle_witness:
  "\<not> all_edges_exist (collected_quad quad_mesh MIN_AREA) 0 1 2
   \<and> compute_weight (collected_quad quad_mesh MIN_AREA) 0 1 2
       = spec_area_weight (0, 0, 0) (1, 0, 0) (1, 1, 0)
   \<and> compute_weight (collected_quad quad_mesh MAX_ANGLE) 0 1 2
       = spec_angle_weight (0, 0, 0) (1, 0, 0) (1, 1, 0)"
proof -
  have e: "\<not> all_edges_exist (collected_quad quad_mesh ob) 0 (Suc 0) 2" for ob
    by (simp add: all_edges_exist_def is_edge_def collected_quad_def new_triangulation_def
        quad_mesh_def mesh_eval)
  show ?thesis
    using weight_of_admitted_triangle [of "collected_quad quad_mesh MIN_AREA" 0 1 2]
      weight_of_admitted_triangle [of "collected_quad quad_mesh MAX_ANGLE" 0 1 2] e
    by (simp add: collected_quad_def new_triangulation_def quad_mesh_def MIN_AREA_def MAX_ANGLE_def)
qed

lemma quad_first_walk:
  "first_on_loop quad_mesh 6 4 2 = Some 2"
  by (simp add: first_on_loop_def quad_mesh_def mesh_eval)

text \<open>Claim C8, as amended, on the single quad: the diagonal from vertex 0 to vertex 2 is
  found by the first walk, at halfedge 2, and inserted between halfedges 6 and 2.\<close>

theorem insert_edge_outcomes_witness:
  "insert_edge (collected_quad quad_mesh MIN_AREA) 0 2
     = Some (Inr (True, (collected_quad quad_mesh MIN_AREA)\<lparr>m_mesh := mesh_insert_edge quad_mesh 6 2\<rparr>))
   \<and> find_halfedge quad_mesh 0 2 = None
   \<and> edge_in_mesh (mesh_insert_edge quad_mesh 6 2) 0 2
   \<and> edge_in_mesh (mesh_insert_edge quad_mesh 6 2) 2 0
   \<and> halfedges_size (mesh_insert_edge quad_mesh 6 2) = 10"
proof -
  let ?s = "collected_quad quad_mesh MIN_AREA"
  have r: "in_range 0 (m_halfedges ?s)" "in_range 2 (m_halfedges ?s)"
    "in_range 0 (m_vertices ?s)" "in_range 2 (m_vertices ?s)"
    by (simp_all add: in_range_def collected_quad_def)
  have l: "loop_length (m_mesh ?s) (m_halfedges ?s ! nat 0) 4"
    "loop_length (m_mesh ?s) (m_halfedges ?s ! nat 2) 4"
    by (simp_all add: loop_length_def collected_quad_def new_triangulation_def quad_mesh_def mesh_eval)
  have m: "m_mesh ?s = quad_mesh" "cerr ?s = []" "halfedges_size quad_mesh = 8"
    "m_halfedges ?s = [6, 0, 2, 4]" "m_vertices ?s = [0, 1, 2, 3]"
    "to_vertex quad_mesh 6 = 0" "to_vertex quad_mesh 2 = 2"
    by (simp_all add: collected_quad_def new_triangulation_def quad_mesh_def)
  have f: "find_halfedge quad_mesh 0 2 = None"
    by (simp add: quad_mesh_def mesh_eval)
  have t: "target_on_loop quad_mesh 6 4 2"
    using first_on_loop_None[of quad_mesh 6 4 2] quad_first_walk by simp
  from insert_edge_outcomes [OF r l] obtain b s' where
    ie: "insert_edge ?s 0 2 = Some (Inr (b, s'))"
    and fl: "b \<longleftrightarrow> m_mesh s' \<noteq> m_mesh ?s"
    and ins: "find_halfedge (m_mesh ?s) (m_vertices ?s ! nat 0) (m_vertices ?s ! nat 2) = None
        \<and> target_on_loop (m_mesh ?s) (m_halfedges ?s ! nat 0) 4 (m_vertices ?s ! nat 2)
        \<longrightarrow> (\<exists>h. first_on_loop (m_mesh ?s) (m_halfedges ?s ! nat 0) 4 (m_vertices ?s ! nat 2) = Some h
                \<and> s' = ?s\<lparr>m_mesh := mesh_insert_edge (m_mesh ?s) (m_halfedges ?s ! nat 0) h\<rparr>)"
    and sz: "m_mesh s' \<noteq> m_mesh ?s \<longrightarrow>
          halfedges_size (m_mesh s') = halfedges_size (m_mesh ?s) + 2
          \<and> faces_size (m_mesh s') = Suc (faces_size (m_mesh ?s))
          \<and> cerr s' = cerr ?s"
    and ed: "m_mesh s' \<noteq> m_mesh ?s
        \<and> m_vertices ?s ! nat 0 = to_vertex (m_mesh ?s) (m_halfedges ?s ! nat 0)
        \<and> m_vertices ?s ! nat 2 = to_vertex (m_mesh ?s) (m_halfedges ?s ! nat 2)
        \<longrightarrow> edge_in_mesh (m_mesh s') (m_vertices ?s ! nat 0) (m_vertices ?s ! nat 2)
            \<and> edge_in_mesh (m_mesh s') (m_vertices ?s ! nat 2) (m_vertices ?s ! nat 0)"
    by blast
  from ins f t quad_first_walk
  have s': "s' = ?s\<lparr>m_mesh := mesh_insert_edge quad_mesh 6 2\<rparr>"
    by (simp add: m)
  then have ne: "m_mesh s' \<noteq> m_mesh ?s" by (simp add: m)
  with fl have b: "b" by simp
  from sz ne have "halfedges_size (m_mesh s') = 10" by (simp add: m)
  moreover from ed ne have "edge_in_mesh (m_mesh s') 0 2 \<and> edge_in_mesh (m_mesh s') 2 0"
    by (simp add: m)
  ultimately show ?thesis using ie b f unfolding s' by simp
qed

lemma bowtie_pair_loops:
  "loop_length (m_mesh bowtie_pair) (m_halfedges bowtie_pair ! nat 0) 4"
  "loop_length (m_mesh bowtie_pair) (m_halfedges bowtie_pair ! nat 1) 4"
  by (simp_all add: loop_length_def bowtie_pair_def new_triangulation_def bowtie_mesh_def mesh_eval)

text \<open>
  Claim C8 as first stated fails where it calls an existing edge a success: on the
  quad of \<open>pillow_mesh\<close> the edge from vertex 0 to vertex 2 exists, and the call
  returns false, the value it also returns on \<open>bowtie_pair\<close>, where neither walk
  meets its target.
\<close>

theorem insert_edge_outcomes_counterexample:
  "find_halfedge pillow_mesh 0 2 = Some 8
   \<and> insert_edge (collected_quad pillow_mesh MIN_AREA) 0 2
       = Some (Inr (False, collected_quad pillow_mesh MIN_AREA))
   \<and> insert_edge bowtie_pair 0 1
       = Some (Inr (False, bowtie_pair\<lparr>cerr := [msg_should_not_happen]\<rparr>))"
proof -
  have e: "find_halfedge pillow_mesh 0 2 = Some 8"
    by (simp add: pillow_mesh_def mesh_eval)
  have a: "insert_edge (collected_quad pillow_mesh MIN_AREA) 0 2
       = Some (Inr (False, collected_quad pillow_mesh MIN_AREA))"
    by (simp add: insert_edge_def in_range_def Let_def e collected_quad_def new_triangulation_def)
  have r: "in_range 0 (m_halfedges bowtie_pair)" "in_range 1 (m_halfedges bowtie_pair)"
    "in_range 0 (m_vertices bowtie_pair)" "in_range 1 (m_vertices bowtie_pair)"
    by (simp_all add: in_range_def bowtie_pair_def)
  have m: "m_mesh bowtie_pair = bowtie_mesh" "cerr bowtie_pair = []"
    "m_halfedges bowtie_pair = [6, 8]" "m_vertices bowtie_pair = [0, 4]"
    by (simp_all add: bowtie_pair_def new_triangulation_def)
  have w: "find_halfedge bowtie_mesh 0 4 = None"
    "first_on_loop bowtie_mesh 6 4 4 = None" "first_on_loop bowtie_mesh 8 4 0 = None"
    by (simp_all add: first_on_loop_def bowtie_mesh_def mesh_eval)
  have b: "insert_edge bowtie_pair 0 1
       = Some (Inr (False, bowtie_pair\<lparr>cerr := [msg_should_not_happen]\<rparr>))"
    using insert_edge_eval[OF r bowtie_pair_loops] by (simp add: m w)
  from e a b show ?thesis by simp
qed

section \<open>The innermost loop of the planner\<close>

lemma get2_set2:
  assumes "i < length t" "k < length (t ! i)"
  shows "get2 (set2 t i k v) i' k' = (if i' = i \<and> k' = k then v else get2 t i' k')"
  using assms by (auto simp: get2_def set2_def nth_list_update)

lemma square_set2: "square t n \<Longrightarrow> square (set2 t i k v) n"
proof (cases "i < length t")
  case True
  assume "square t n"
  with True show ?thesis by (auto simp: square_def set2_def nth_list_update)
next
  case False
  assume "square t n"
  with False show ?thesis by (simp add: square_def set2_def)
qed

lemma square_replicate: "square (replicate n (replicate n x)) n"
  by (simp add: square_def)

lemma same_frame_refl [simp]: "same_frame s s"
  by (simp add: same_frame_def)

lemma same_frame_trans: "same_frame a b \<Longrightarrow> same_frame b c \<Longrightarrow> same_frame a c"
  by (simp add: same_frame_def)

lemma same_frame_tables [simp]: "same_frame s (s\<lparr>m_weight := w, m_index := x\<rparr>)"
  by (simp add: same_frame_def)

lemma compute_weight_frame:
  "m_mesh s' = m_mesh s \<Longrightarrow> m_objective s' = m_objective s \<Longrightarrow> m_vertices s' = m_vertices s
   \<Longrightarrow> compute_weight s' i m k = compute_weight s i m k"
  by (simp add: compute_weight_def all_edges_exist_def is_edge_def Let_def)

lemma candidate_cost_frame:
  assumes "same_frame s s'"
    and "get2 (m_weight s') i m = get2 (m_weight s) i m"
    and "get2 (m_weight s') m k = get2 (m_weight s) m k"
  shows "candidate_cost s' i m k = candidate_cost s i m k"
  using assms compute_weight_frame[of s' s i m k]
  by (simp add: candidate_cost_def same_frame_def)

lemma split_cost_valid:
  assumes "m_objective s = MIN_AREA \<or> m_objective s = MAX_ANGLE"
  shows "split_cost s i m k = Inr (candidate_cost s i m k)"
  using assms by (auto simp: split_cost_def candidate_cost_def std_max_eq_max MIN_AREA_def MAX_ANGLE_def)

lemma find_split_spec:
  assumes valid: "m_objective s = MIN_AREA \<or> m_objective s = MAX_ANGLE"
  shows "\<exists>w im. find_split s i k m wmin imin = Inr (w, im) \<and> w \<le> wmin
           \<and> (\<forall>m'. m \<le> m' \<and> m' < k \<longrightarrow> w \<le> candidate_cost s i m' k)
           \<and> (if \<exists>m'. m \<le> m' \<and> m' < k \<and> candidate_cost s i m' k < wmin
              then \<exists>m0. m \<le> m0 \<and> m0 < k \<and> im = int m0 \<and> candidate_cost s i m0 k = w
                     \<and> (\<forall>m'. m \<le> m' \<and> m' < m0 \<longrightarrow> w < candidate_cost s i m' k)
              else w = wmin \<and> im = imin)"
proof (induction "k - m" arbitrary: m wmin imin)
  case 0
  then have "\<not> m < k" by simp
  then show ?case by (subst find_split.simps) auto
next
  case (Suc d)
  then have mk: "m < k" and d: "d = k - Suc m" by auto
  let ?c = "\<lambda>m'. candidate_cost s i m' k"
  show ?case
  proof (cases "?c m < wmin")
    case True
    have unfold: "find_split s i k m wmin imin = find_split s i k (Suc m) (?c m) (int m)"
      using mk True by (subst find_split.simps) (simp add: split_cost_valid[OF valid])
    from Suc.hyps(1)[OF d, of "?c m" "int m"] obtain w im where
      r: "find_split s i k (Suc m) (?c m) (int m) = Inr (w, im)" and le: "w \<le> ?c m"
      and all: "\<forall>m'. Suc m \<le> m' \<and> m' < k \<longrightarrow> w \<le> ?c m'"
      and sel: "if \<exists>m'. Suc m \<le> m' \<and> m' < k \<and> ?c m' < ?c m
              then \<exists>m0. Suc m \<le> m0 \<and> m0 < k \<and> im = int m0 \<and> ?c m0 = w
                     \<and> (\<forall>m'. Suc m \<le> m' \<and> m' < m0 \<longrightarrow> w < ?c m')
              else w = ?c m \<and> im = int m"
      by blast
    have all': "\<forall>m'. m \<le> m' \<and> m' < k \<longrightarrow> w \<le> ?c m'"
    proof (intro allI impI)
      fix m' assume "m \<le> m' \<and> m' < k"
      then consider "m' = m" | "Suc m \<le> m' \<and> m' < k" by linarith
      then show "w \<le> ?c m'" using le all by cases auto
    qed
    have ex: "\<exists>m'. m \<le> m' \<and> m' < k \<and> ?c m' < wmin" using mk True by blast
    have "\<exists>m0. m \<le> m0 \<and> m0 < k \<and> im = int m0 \<and> ?c m0 = w
               \<and> (\<forall>m'. m \<le> m' \<and> m' < m0 \<longrightarrow> w < ?c m')"
    proof (cases "\<exists>m'. Suc m \<le> m' \<and> m' < k \<and> ?c m' < ?c m")
      case True
      with sel obtain m0 where m0: "Suc m \<le> m0" "m0 < k" "im = int m0" "?c m0 = w"
        "\<forall>m'. Suc m \<le> m' \<and> m' < m0 \<longrightarrow> w < ?c m'" by auto
      from True obtain m1 where m1: "Suc m \<le> m1" "m1 < k" "?c m1 < ?c m" by blast
      with all have "w \<le> ?c m1" by blast
      with m1 have wlt: "w < ?c m" by linarith
      have "\<forall>m'. m \<le> m' \<and> m' < m0 \<longrightarrow> w < ?c m'"
      proof (intro allI impI)
        fix m' assume a: "m \<le> m' \<and> m' < m0"
        then consider "m' = m" | "Suc m \<le> m' \<and> m' < m0" by linarith
        then show "w < ?c m'" using wlt m0(5) by cases auto
      qed
      with m0 show ?thesis by (intro exI[of _ m0]) auto
    next
      case False
      with sel have "w = ?c m" "im = int m" by auto
      with mk show ?thesis by (intro exI[of _ m]) auto
    qed
    with ex all' le True r unfold show ?thesis by auto
  next
    case False
    have unfold: "find_split s i k m wmin imin = find_split s i k (Suc m) wmin imin"
      using mk False by (subst find_split.simps) (simp add: split_cost_valid[OF valid])
    from Suc.hyps(1)[OF d, of wmin imin] obtain w im where
      r: "find_split s i k (Suc m) wmin imin = Inr (w, im)" and le: "w \<le> wmin"
      and all: "\<forall>m'. Suc m \<le> m' \<and> m' < k \<longrightarrow> w \<le> ?c m'"
      and sel: "if \<exists>m'. Suc m \<le> m' \<and> m' < k \<and> ?c m' < wmin
              then \<exists>m0. Suc m \<le> m0 \<and> m0 < k \<and> im = int m0 \<and> ?c m0 = w
                     \<and> (\<forall>m'. Suc m \<le> m' \<and> m' < m0 \<longrightarrow> w < ?c m')
              else w = wmin \<and> im = imin"
      by blast
    have all': "\<forall>m'. m \<le> m' \<and> m' < k \<longrightarrow> w \<le> ?c m'"
    proof (intro allI impI)
      fix m' assume "m \<le> m' \<and> m' < k"
      then consider "m' = m" | "Suc m \<le> m' \<and> m' < k" by linarith
      then show "w \<le> ?c m'" using le all False by cases auto
    qed
    have iff: "(\<exists>m'. m \<le> m' \<and> m' < k \<and> ?c m' < wmin) \<longleftrightarrow> (\<exists>m'. Suc m \<le> m' \<and> m' < k \<and> ?c m' < wmin)"
      using False by (metis Suc_leI le_neq_implies_less Suc_leD)
    show ?thesis
    proof (cases "\<exists>m'. Suc m \<le> m' \<and> m' < k \<and> ?c m' < wmin")
      case True
      with sel obtain m0 where m0: "Suc m \<le> m0" "m0 < k" "im = int m0" "?c m0 = w"
        "\<forall>m'. Suc m \<le> m' \<and> m' < m0 \<longrightarrow> w < ?c m'" by auto
      from True obtain m1 where m1: "Suc m \<le> m1" "m1 < k" "?c m1 < wmin" by blast
      with all have "w \<le> ?c m1" by blast
      with m1 have "w < wmin" by linarith
      with False have wlt: "w < ?c m" by simp
      have "\<forall>m'. m \<le> m' \<and> m' < m0 \<longrightarrow> w < ?c m'"
      proof (intro allI impI)
        fix m' assume a: "m \<le> m' \<and> m' < m0"
        then consider "m' = m" | "Suc m \<le> m' \<and> m' < m0" by linarith
        then show "w < ?c m'" using wlt m0(5) by cases auto
      qed
      with m0 have "\<exists>m0. m \<le> m0 \<and> m0 < k \<and> im = int m0 \<and> ?c m0 = w
               \<and> (\<forall>m'. m \<le> m' \<and> m' < m0 \<longrightarrow> w < ?c m')"
        by (intro exI[of _ m0]) auto
      with True iff all' le r unfold show ?thesis by auto
    next
      case False
      with sel have "w = wmin" "im = imin" by auto
      with False iff all' le r unfold show ?thesis by auto
    qed
  qed
qed

section \<open>The tables after planning\<close>

lemma find_split_frame:
  assumes "same_frame s s'"
    and "\<forall>m'. i < m' \<and> m' < k \<longrightarrow>
           get2 (m_weight s') i m' = get2 (m_weight s) i m'
           \<and> get2 (m_weight s') m' k = get2 (m_weight s) m' k"
    and "i < m"
  shows "find_split s' i k m wmin imin = find_split s i k m wmin imin"
  using assms(3)
proof (induction "k - m" arbitrary: m wmin imin)
  case 0
  then show ?case by (simp add: find_split.simps[of _ i k m])
next
  case (Suc d)
  then have mk: "m < k" and d: "d = k - Suc m" by auto
  have w: "get2 (m_weight s') i m = get2 (m_weight s) i m"
    "get2 (m_weight s') m k = get2 (m_weight s) m k"
    using assms(2) Suc.prems mk by auto
  have c: "split_cost s' i m k = split_cost s i m k"
    using assms(1) w compute_weight_frame[of s' s i m k]
    by (simp add: split_cost_def same_frame_def)
  have ih: "find_split s' i k (Suc m) w' im' = find_split s i k (Suc m) w' im'" for w' im'
    using Suc.hyps(1)[OF d] Suc.prems by simp
  show ?case
    by (subst find_split.simps[of s' i k m], subst find_split.simps[of s i k m])
      (simp add: c ih split: sum.split)
qed

lemma best_split_frame:
  assumes "same_frame s s'"
    and "\<forall>m'. i < m' \<and> m' < k \<longrightarrow>
           get2 (m_weight s') i m' = get2 (m_weight s) i m'
           \<and> get2 (m_weight s') m' k = get2 (m_weight s) m' k"
  shows "best_split s' i k = best_split s i k"
  unfolding best_split_def using find_split_frame[OF assms] by simp

lemma best_split_spec:
  assumes valid: "m_objective s = MIN_AREA \<or> m_objective s = MAX_ANGLE"
  shows "find_split s i k (Suc i) scalar_max (- 1) = Inr (best_split s i k)"
    and "dp_entry s i k (fst (best_split s i k)) (snd (best_split s i k))"
proof -
  from find_split_spec[OF valid, of i k "Suc i" scalar_max "- 1"] obtain w im where
    r: "find_split s i k (Suc i) scalar_max (- 1) = Inr (w, im)" and le: "w \<le> scalar_max"
    and all: "\<forall>m'. Suc i \<le> m' \<and> m' < k \<longrightarrow> w \<le> candidate_cost s i m' k"
    and sel: "if \<exists>m'. Suc i \<le> m' \<and> m' < k \<and> candidate_cost s i m' k < scalar_max
              then \<exists>m0. Suc i \<le> m0 \<and> m0 < k \<and> im = int m0 \<and> candidate_cost s i m0 k = w
                     \<and> (\<forall>m'. Suc i \<le> m' \<and> m' < m0 \<longrightarrow> w < candidate_cost s i m' k)
              else w = scalar_max \<and> im = - 1"
    by blast
  from r have b: "best_split s i k = (w, im)" by (simp add: best_split_def)
  show "find_split s i k (Suc i) scalar_max (- 1) = Inr (best_split s i k)"
    using r b by simp
  show "dp_entry s i k (fst (best_split s i k)) (snd (best_split s i k))"
    using le all sel unfolding dp_entry_def b fst_conv snd_conv Suc_le_eq by simp
qed

lemma dp_entry_frame:
  assumes "same_frame s s'"
    and "\<forall>m'. i < m' \<and> m' < k \<longrightarrow>
           get2 (m_weight s') i m' = get2 (m_weight s) i m'
           \<and> get2 (m_weight s') m' k = get2 (m_weight s) m' k"
  shows "dp_entry s' i k w im = dp_entry s i k w im"
proof -
  have "candidate_cost s' i m k = candidate_cost s i m k" if "i < m" "m < k" for m
    using candidate_cost_frame[OF assms(1), of i m k] assms(2) that by simp
  then show ?thesis unfolding dp_entry_def
    by (smt (verit, best) less_trans)
qed

lemma ngons_spec:
  assumes valid: "m_objective s = MIN_AREA \<or> m_objective s = MAX_ANGLE"
    and sq: "square (m_weight s) n" "square (m_index s) n" and j: "0 < j"
  shows "\<exists>s'. ngons s n j i0 = Inr s' \<and> same_frame s s'
           \<and> square (m_weight s') n \<and> square (m_index s') n
           \<and> (\<forall>a b. get2 (m_weight s') a b =
                  (if i0 \<le> a \<and> b = a + j \<and> b < n then fst (best_split s a b)
                   else get2 (m_weight s) a b))
           \<and> (\<forall>a b. get2 (m_index s') a b =
                  (if i0 \<le> a \<and> b = a + j \<and> b < n then snd (best_split s a b)
                   else get2 (m_index s) a b))"
  using valid sq
proof (induction "n - i0" arbitrary: i0 s)
  case 0
  then have "\<not> i0 + j < n" by simp
  then show ?case using "0.prems" by (subst ngons.simps) auto
next
  case (Suc d)
  show ?case
  proof (cases "i0 + j < n")
    case False
    then show ?thesis using Suc.prems by (subst ngons.simps) auto
  next
    case True
    let ?k = "i0 + j"
    obtain w im where b: "best_split s i0 ?k = (w, im)" by (cases "best_split s i0 ?k")
    let ?s1 = "s\<lparr>m_weight := set2 (m_weight s) i0 ?k w, m_index := set2 (m_index s) i0 ?k im\<rparr>"
    have unfold: "ngons s n j i0 = ngons ?s1 n j (Suc i0)"
      using True best_split_spec(1)[OF Suc.prems(1), of i0 ?k] b
      by (subst ngons.simps) simp
    have fr1: "same_frame s ?s1" by simp
    have v1: "m_objective ?s1 = MIN_AREA \<or> m_objective ?s1 = MAX_ANGLE"
      using Suc.prems(1) by simp
    have sq1: "square (m_weight ?s1) n" "square (m_index ?s1) n"
      using Suc.prems(2,3) by (simp_all add: square_set2)
    have d: "d = n - Suc i0" using Suc.hyps(2) by simp
    have bounds: "i0 < length (m_weight s)" "?k < length (m_weight s ! i0)"
      "i0 < length (m_index s)" "?k < length (m_index s ! i0)"
      using True Suc.prems(2,3) by (auto simp: square_def)
    have g1: "get2 (m_weight ?s1) a b = (if a = i0 \<and> b = ?k then w else get2 (m_weight s) a b)" for a b
      using get2_set2[OF bounds(1,2)] by simp
    have g2: "get2 (m_index ?s1) a b = (if a = i0 \<and> b = ?k then im else get2 (m_index s) a b)" for a b
      using get2_set2[OF bounds(3,4)] by simp
    from Suc.hyps(1)[OF d v1 sq1] obtain s' where
      r: "ngons ?s1 n j (Suc i0) = Inr s'" and fr: "same_frame ?s1 s'"
      and sq': "square (m_weight s') n" "square (m_index s') n"
      and W: "\<forall>a b. get2 (m_weight s') a b =
                  (if Suc i0 \<le> a \<and> b = a + j \<and> b < n then fst (best_split ?s1 a b)
                   else get2 (m_weight ?s1) a b)"
      and I: "\<forall>a b. get2 (m_index s') a b =
                  (if Suc i0 \<le> a \<and> b = a + j \<and> b < n then snd (best_split ?s1 a b)
                   else get2 (m_index ?s1) a b)"
      by blast
    have same: "best_split ?s1 a (a + j) = best_split s a (a + j)" if "Suc i0 \<le> a" for a
      by (rule best_split_frame[OF fr1]) (use that g1 in auto)
    have W': "get2 (m_weight s') a b =
                  (if i0 \<le> a \<and> b = a + j \<and> b < n then fst (best_split s a b)
                   else get2 (m_weight s) a b)" for a b
      using W[rule_format, of a b] same[of a] g1[of a b] b True
      by (cases "a = i0") auto
    have I': "get2 (m_index s') a b =
                  (if i0 \<le> a \<and> b = a + j \<and> b < n then snd (best_split s a b)
                   else get2 (m_index s) a b)" for a b
      using I[rule_format, of a b] same[of a] g2[of a b] b True
      by (cases "a = i0") auto
    show ?thesis
      using unfold r same_frame_trans[OF fr1 fr] sq' W' I' by simp
  qed
qed

lemma all_ngons_spec:
  assumes valid: "m_objective s = MIN_AREA \<or> m_objective s = MAX_ANGLE"
    and sq: "square (m_weight s) n" "square (m_index s) n" and j: "0 < j"
  shows "\<exists>s'. all_ngons s n j = Inr s' \<and> same_frame s s'
           \<and> square (m_weight s') n \<and> square (m_index s') n
           \<and> (\<forall>a b. b < a + j \<longrightarrow> get2 (m_weight s') a b = get2 (m_weight s) a b
                                  \<and> get2 (m_index s') a b = get2 (m_index s) a b)
           \<and> (\<forall>a b. a + j \<le> b \<and> b < n \<longrightarrow>
                  dp_entry s' a b (get2 (m_weight s') a b) (get2 (m_index s') a b))"
  using valid sq j
proof (induction "n - j" arbitrary: j s)
  case 0
  then have "\<not> j < n" by simp
  then show ?case using "0.prems" by (subst all_ngons.simps) auto
next
  case (Suc d)
  then have jn: "j < n" and d: "d = n - Suc j" by auto
  from ngons_spec[OF Suc.prems(1-4), of 0] obtain s1 where
    r1: "ngons s n j 0 = Inr s1" and fr1: "same_frame s s1"
    and sq1: "square (m_weight s1) n" "square (m_index s1) n"
    and W1: "\<forall>a b. get2 (m_weight s1) a b =
                  (if b = a + j \<and> b < n then fst (best_split s a b) else get2 (m_weight s) a b)"
    and I1: "\<forall>a b. get2 (m_index s1) a b =
                  (if b = a + j \<and> b < n then snd (best_split s a b) else get2 (m_index s) a b)"
    by auto
  have v1: "m_objective s1 = MIN_AREA \<or> m_objective s1 = MAX_ANGLE"
    using Suc.prems(1) fr1 by (simp add: same_frame_def)
  from Suc.hyps(1)[OF d v1 sq1] obtain s' where
    r: "all_ngons s1 n (Suc j) = Inr s'" and fr: "same_frame s1 s'"
    and sq': "square (m_weight s') n" "square (m_index s') n"
    and keep: "\<forall>a b. b < a + Suc j \<longrightarrow> get2 (m_weight s') a b = get2 (m_weight s1) a b
                                  \<and> get2 (m_index s') a b = get2 (m_index s1) a b"
    and dp: "\<forall>a b. a + Suc j \<le> b \<and> b < n \<longrightarrow>
                  dp_entry s' a b (get2 (m_weight s') a b) (get2 (m_index s') a b)"
    by auto
  have unfold: "all_ngons s n j = Inr s'"
    using jn r1 r by (subst all_ngons.simps) simp
  have fr': "same_frame s s'" by (rule same_frame_trans[OF fr1 fr])
  have keep': "get2 (m_weight s') a b = get2 (m_weight s) a b
               \<and> get2 (m_index s') a b = get2 (m_index s) a b" if "b < a + j" for a b
    using keep[rule_format, of b a] W1[rule_format, of a b] I1[rule_format, of a b] that by simp
  have dp': "dp_entry s' a b (get2 (m_weight s') a b) (get2 (m_index s') a b)"
    if "a + j \<le> b" "b < n" for a b
  proof (cases "b = a + j")
    case False
    then show ?thesis using dp that by simp
  next
    case True
    have e: "get2 (m_weight s') a b = fst (best_split s a b)"
      "get2 (m_index s') a b = snd (best_split s a b)"
      using keep[rule_format, of b a] W1[rule_format, of a b] I1[rule_format, of a b] True that
      by simp_all
    have small: "\<forall>m'. a < m' \<and> m' < b \<longrightarrow>
           get2 (m_weight s') a m' = get2 (m_weight s) a m'
           \<and> get2 (m_weight s') m' b = get2 (m_weight s) m' b"
      using keep' True Suc.prems(4) by auto
    show ?thesis
      unfolding e dp_entry_frame[OF fr' small]
      by (rule best_split_spec(2)[OF Suc.prems(1)])
  qed
  show ?case using unfold fr' sq' keep' dp' by blast
qed

lemma init_2gons_spec:
  assumes sq: "square (m_weight s) n" "square (m_index s) n"
  shows "same_frame s (init_2gons s n i0)
           \<and> square (m_weight (init_2gons s n i0)) n \<and> square (m_index (init_2gons s n i0)) n
           \<and> (\<forall>a b. get2 (m_weight (init_2gons s n i0)) a b =
                  (if i0 \<le> a \<and> b = Suc a \<and> b < n then 0 else get2 (m_weight s) a b))
           \<and> (\<forall>a b. get2 (m_index (init_2gons s n i0)) a b =
                  (if i0 \<le> a \<and> b = Suc a \<and> b < n then - 1 else get2 (m_index s) a b))"
  using sq
proof (induction "n - i0" arbitrary: i0 s)
  case 0
  then have "\<not> Suc i0 < n" by simp
  then show ?case using "0.prems" by (subst (1 2 3 4 5) init_2gons.simps) auto
next
  case (Suc d)
  show ?case
  proof (cases "Suc i0 < n")
    case False
    then show ?thesis using Suc.prems by (subst (1 2 3 4 5) init_2gons.simps) auto
  next
    case True
    let ?s1 = "s\<lparr>m_weight := set2 (m_weight s) i0 (Suc i0) 0,
                  m_index := set2 (m_index s) i0 (Suc i0) (- 1)\<rparr>"
    have unfold: "init_2gons s n i0 = init_2gons ?s1 n (Suc i0)"
      using True by (subst init_2gons.simps) simp
    have sq1: "square (m_weight ?s1) n" "square (m_index ?s1) n"
      using Suc.prems by (simp_all add: square_set2)
    have d: "d = n - Suc i0" using Suc.hyps(2) by simp
    have bounds: "i0 < length (m_weight s)" "Suc i0 < length (m_weight s ! i0)"
      "i0 < length (m_index s)" "Suc i0 < length (m_index s ! i0)"
      using True Suc.prems by (auto simp: square_def)
    have g1: "get2 (m_weight ?s1) a b = (if a = i0 \<and> b = Suc i0 then 0 else get2 (m_weight s) a b)" for a b
      using get2_set2[OF bounds(1,2)] by simp
    have g2: "get2 (m_index ?s1) a b = (if a = i0 \<and> b = Suc i0 then - 1 else get2 (m_index s) a b)" for a b
      using get2_set2[OF bounds(3,4)] by simp
    note ih = Suc.hyps(1)[OF d sq1]
    have fr: "same_frame s (init_2gons ?s1 n (Suc i0))"
      using ih same_frame_trans[of s ?s1] by simp
    show ?thesis
      unfolding unfold using ih fr g1 g2 True
      by (auto simp: Suc_le_eq less_Suc_eq_le)
  qed
qed

lemma plan_spec:
  assumes valid: "m_objective s = MIN_AREA \<or> m_objective s = MAX_ANGLE"
  shows "\<exists>s'. plan s n = Inr s' \<and> same_frame s s'
           \<and> square (m_weight s') n \<and> square (m_index s') n
           \<and> (\<forall>a. Suc a < n \<longrightarrow> get2 (m_weight s') a (Suc a) = 0 \<and> get2 (m_index s') a (Suc a) = - 1)
           \<and> (\<forall>a b. a + 2 \<le> b \<and> b < n \<longrightarrow>
                  dp_entry s' a b (get2 (m_weight s') a b) (get2 (m_index s') a b))"
proof -
  let ?r = "s\<lparr>m_weight := replicate n (replicate n scalar_max),
              m_index := replicate n (replicate n 0)\<rparr>"
  let ?s0 = "init_2gons ?r n 0"
  have sqr: "square (m_weight ?r) n" "square (m_index ?r) n"
    by (simp_all add: square_replicate)
  note i = init_2gons_spec[OF sqr, of 0]
  have fr0: "same_frame s ?s0" using i same_frame_trans[of s ?r ?s0] by simp
  have v0: "m_objective ?s0 = MIN_AREA \<or> m_objective ?s0 = MAX_ANGLE"
    using valid fr0 by (simp add: same_frame_def)
  from i have sq0: "square (m_weight ?s0) n" "square (m_index ?s0) n" by simp_all
  from all_ngons_spec[OF v0 sq0, of 2] obtain s' where
    r: "all_ngons ?s0 n 2 = Inr s'" and fr: "same_frame ?s0 s'"
    and sq': "square (m_weight s') n" "square (m_index s') n"
    and keep: "\<forall>a b. b < a + 2 \<longrightarrow> get2 (m_weight s') a b = get2 (m_weight ?s0) a b
                                  \<and> get2 (m_index s') a b = get2 (m_index ?s0) a b"
    and dp: "\<forall>a b. a + 2 \<le> b \<and> b < n \<longrightarrow>
                  dp_entry s' a b (get2 (m_weight s') a b) (get2 (m_index s') a b)"
    by auto
  have base: "get2 (m_weight s') a (Suc a) = 0 \<and> get2 (m_index s') a (Suc a) = - 1" if "Suc a < n" for a
    using keep[rule_format, of "Suc a" a] i that by simp
  show ?thesis
    using r same_frame_trans[OF fr0 fr] sq' base dp by (auto simp: plan_def)
qed

section \<open>The recurrence and the choice of the split\<close>

lemma split_cost_view: "planner_view a b \<Longrightarrow> split_cost a i m k = split_cost b i m k"
  using compute_weight_frame[of a b i m k] by (simp add: planner_view_def split_cost_def)

lemma find_split_view:
  assumes "planner_view a b"
  shows "find_split a i k m wmin imin = find_split b i k m wmin imin"
proof (induction "k - m" arbitrary: m wmin imin)
  case 0
  then show ?case by (simp add: find_split.simps[of _ i k m])
next
  case (Suc d)
  then have d: "d = k - Suc m" by auto
  have ih: "find_split a i k (Suc m) w' im' = find_split b i k (Suc m) w' im'" for w' im'
    using Suc.hyps(1)[OF d] by simp
  show ?case
    by (subst find_split.simps[of a i k m], subst find_split.simps[of b i k m])
      (simp add: split_cost_view[OF assms] ih split: sum.split)
qed

lemma ngons_view:
  assumes "planner_view a b"
  shows "rel_sum (=) planner_view (ngons a n j i) (ngons b n j i)"
  using assms
proof (induction "n - i" arbitrary: i a b)
  case 0
  then have "\<not> i + j < n" by simp
  then show ?case using "0.prems" by (simp add: ngons.simps[of _ n j i])
next
  case (Suc d)
  show ?case
  proof (cases "i + j < n")
    case False
    then show ?thesis using Suc.prems by (simp add: ngons.simps[of _ n j i])
  next
    case True
    have d: "d = n - Suc i" using Suc.hyps(2) by simp
    have f: "find_split a i (i + j) (Suc i) scalar_max (- 1)
             = find_split b i (i + j) (Suc i) scalar_max (- 1)"
      by (rule find_split_view[OF Suc.prems])
    show ?thesis
    proof (cases "find_split b i (i + j) (Suc i) scalar_max (- 1)")
      case (Inl e)
      then show ?thesis using True f
        by (simp add: ngons.simps[of _ n j i])
    next
      case (Inr r)
      obtain w im where r: "r = (w, im)" by (cases r)
      let ?a1 = "a\<lparr>m_weight := set2 (m_weight a) i (i + j) w, m_index := set2 (m_index a) i (i + j) im\<rparr>"
      let ?b1 = "b\<lparr>m_weight := set2 (m_weight b) i (i + j) w, m_index := set2 (m_index b) i (i + j) im\<rparr>"
      have v: "planner_view ?a1 ?b1" using Suc.prems by (simp add: planner_view_def)
      have "ngons a n j i = ngons ?a1 n j (Suc i)" "ngons b n j i = ngons ?b1 n j (Suc i)"
        using True f Inr r by (simp_all add: ngons.simps[of _ n j i])
      then show ?thesis using Suc.hyps(1)[OF d v] by simp
    qed
  qed
qed

lemma all_ngons_view:
  assumes "planner_view a b"
  shows "rel_sum (=) planner_view (all_ngons a n j) (all_ngons b n j)"
  using assms
proof (induction "n - j" arbitrary: j a b)
  case 0
  then have "\<not> j < n" by simp
  then show ?case using "0.prems" by (simp add: all_ngons.simps[of _ n j])
next
  case (Suc d)
  then have jn: "j < n" and d: "d = n - Suc j" by auto
  note v = ngons_view[OF Suc.prems, of n j 0]
  show ?case
  proof (cases "ngons a n j 0")
    case (Inl e)
    with v obtain e' where "ngons b n j 0 = Inl e'" "e = e'"
      by (cases "ngons b n j 0") auto
    with Inl show ?thesis using jn by (simp add: all_ngons.simps[of _ n j])
  next
    case (Inr a1)
    with v obtain b1 where b1: "ngons b n j 0 = Inr b1" "planner_view a1 b1"
      by (cases "ngons b n j 0") auto
    with Inr show ?thesis using jn Suc.hyps(1)[OF d, of a1 b1]
      by (simp add: all_ngons.simps[of _ n j])
  qed
qed

lemma init_2gons_view:
  assumes "planner_view a b"
  shows "planner_view (init_2gons a n i) (init_2gons b n i)"
  using assms
proof (induction "n - i" arbitrary: i a b)
  case 0
  then have "\<not> Suc i < n" by simp
  then show ?case using "0.prems" by (simp add: init_2gons.simps[of _ n i])
next
  case (Suc d)
  show ?case
  proof (cases "Suc i < n")
    case False
    then show ?thesis using Suc.prems by (simp add: init_2gons.simps[of _ n i])
  next
    case True
    have d: "d = n - Suc i" using Suc.hyps(2) by simp
    let ?a1 = "a\<lparr>m_weight := set2 (m_weight a) i (Suc i) 0, m_index := set2 (m_index a) i (Suc i) (- 1)\<rparr>"
    let ?b1 = "b\<lparr>m_weight := set2 (m_weight b) i (Suc i) 0, m_index := set2 (m_index b) i (Suc i) (- 1)\<rparr>"
    have v: "planner_view ?a1 ?b1" using Suc.prems by (simp add: planner_view_def)
    show ?thesis using True Suc.hyps(1)[OF d v]
      by (simp add: init_2gons.simps[of _ n i])
  qed
qed

lemma plan_view:
  assumes "m_mesh a = m_mesh b" "m_objective a = m_objective b" "m_vertices a = m_vertices b"
  shows "rel_sum (=) planner_view (plan a n) (plan b n)"
  unfolding plan_def
  by (intro all_ngons_view init_2gons_view) (use assms in \<open>simp add: planner_view_def\<close>)

lemma candidates_nonempty: "i + 2 \<le> k \<Longrightarrow> Suc i \<in> {i<..<k}"
  by auto

lemma dp_entry_min:
  assumes "dp_entry s i k w im" "i + 2 \<le> k"
  shows "w = min scalar_max (Min ((\<lambda>m. candidate_cost s i m k) ` {i<..<k}))"
proof -
  let ?c = "\<lambda>m. candidate_cost s i m k"
  let ?C = "?c ` {i<..<k}"
  have fin: "finite ?C" and ne: "?C \<noteq> {}" using candidates_nonempty[OF assms(2)] by auto
  have lower: "\<forall>y \<in> ?C. w \<le> y" using assms(1) by (auto simp: dp_entry_def)
  show ?thesis
  proof (cases "\<exists>m. i < m \<and> m < k \<and> ?c m < scalar_max")
    case True
    with assms(1) obtain m0 where m0: "i < m0" "m0 < k" "?c m0 = w"
      unfolding dp_entry_def by auto
    then have "w \<in> ?C" by auto
    with lower fin have "Min ?C = w" by (intro Min_eqI) auto
    moreover have "w < scalar_max"
    proof -
      from True obtain m where m: "i < m" "m < k" "?c m < scalar_max" by blast
      then have "w \<le> ?c m" using lower by auto
      with m show ?thesis by linarith
    qed
    ultimately show ?thesis by simp
  next
    case False
    with assms(1) have w: "w = scalar_max" unfolding dp_entry_def by auto
    have "\<forall>y \<in> ?C. scalar_max \<le> y"
    proof
      fix y assume "y \<in> ?C"
      then obtain m where m: "i < m" "m < k" "y = ?c m" by auto
      with False have "\<not> ?c m < scalar_max" by blast
      with m show "scalar_max \<le> y" by simp
    qed
    with fin ne have "scalar_max \<le> Min ?C" by simp
    with w show ?thesis by simp
  qed
qed

lemma dp_entry_first:
  assumes "dp_entry s i k w im" "i + 2 \<le> k"
    and "\<exists>m. i < m \<and> m < k \<and> candidate_cost s i m k < scalar_max"
  shows "\<exists>m0. im = int m0 \<and> i < m0 \<and> m0 < k
           \<and> candidate_cost s i m0 k = Min ((\<lambda>m. candidate_cost s i m k) ` {i<..<k})
           \<and> (\<forall>m. i < m \<and> m < m0 \<longrightarrow>
                 Min ((\<lambda>m. candidate_cost s i m k) ` {i<..<k}) < candidate_cost s i m k)"
proof -
  let ?c = "\<lambda>m. candidate_cost s i m k"
  let ?C = "?c ` {i<..<k}"
  from assms(1,3) obtain m0 where m0: "i < m0" "m0 < k" "im = int m0" "?c m0 = w"
    "\<forall>m. i < m \<and> m < m0 \<longrightarrow> w < ?c m"
    unfolding dp_entry_def by auto
  have "\<forall>y \<in> ?C. w \<le> y" using assms(1) by (auto simp: dp_entry_def)
  moreover have "w \<in> ?C" using m0 by auto
  ultimately have "Min ?C = w" by (intro Min_eqI) auto
  with m0 show ?thesis by (intro exI[of _ m0]) simp
qed

lemma planned_face:
  assumes len: "loop_length (m_mesh s) (halfedge (m_mesh s) f) n"
    and man: "\<forall>j<n. is_manifold (m_mesh s) (to_vertex (m_mesh s) ((next_halfedge (m_mesh s) ^^ j) (halfedge (m_mesh s) f)))"
    and valid: "ob = MIN_AREA \<or> ob = MAX_ANGLE"
  shows "\<exists>s1 s2. collect_polygon s f ob = Some (True, s1) \<and> m_mesh s1 = m_mesh s
           \<and> m_objective s1 = ob \<and> length (m_vertices s1) = n
           \<and> m_vertices s1 = map (to_vertex (m_mesh s)) (walk_from (m_mesh s) (halfedge (m_mesh s) f) n)
           \<and> plan s1 n = Inr s2 \<and> same_frame s1 s2
           \<and> (\<forall>a. Suc a < n \<longrightarrow> get2 (m_weight s2) a (Suc a) = 0 \<and> get2 (m_index s2) a (Suc a) = - 1)
           \<and> (\<forall>a b. a + 2 \<le> b \<and> b < n \<longrightarrow>
                  dp_entry s2 a b (get2 (m_weight s2) a b) (get2 (m_index s2) a b))"
proof -
  let ?s1 = "push_polygon (s\<lparr>m_objective := ob, m_halfedges := [], m_vertices := []\<rparr>)
                       (walk_from (m_mesh s) (halfedge (m_mesh s) f) n)"
  have c: "collect_polygon s f ob = Some (True, ?s1)"
    using collect_polygon_closed[OF len, of ob] man by simp
  have v: "m_objective ?s1 = MIN_AREA \<or> m_objective ?s1 = MAX_ANGLE" using valid by simp
  from plan_spec[OF v, of n] c show ?thesis by auto
qed

lemma sqrnorm_normalize_le: "sqrnorm (normalize v) \<le> 1"
proof -
  obtain x y z where v: "v = (x, y, z)" by (cases v)
  let ?s = "x * x + y * y + z * z"
  have s: "0 \<le> ?s" by simp
  have n: "norm3 v * norm3 v = ?s"
    using s by (simp add: norm3_def sqrnorm_def v)
  have "sqrnorm (normalize v) = ?s / (norm3 v * norm3 v)"
    by (simp add: v sqrnorm_def add_divide_distrib)
  also have "\<dots> = ?s / ?s" by (simp only: n)
  also have "\<dots> \<le> 1" by simp
  finally show ?thesis .
qed

lemma dot_le_sqrnorms: "2 * dot a b \<le> sqrnorm a + sqrnorm b"
proof -
  obtain a1 a2 a3 where a: "a = (a1, a2, a3)" by (cases a)
  obtain b1 b2 b3 where b: "b = (b1, b2, b3)" by (cases b)
  have "0 \<le> (a1 - b1) * (a1 - b1) + (a2 - b2) * (a2 - b2) + (a3 - b3) * (a3 - b3)"
    by simp
  then show ?thesis by (simp add: a b sqrnorm_def algebra_simps)
qed

lemma cosine_le_one: "dot (normalize u) (normalize v) \<le> 1"
  using dot_le_sqrnorms[of "normalize u" "normalize v"]
    sqrnorm_normalize_le[of u] sqrnorm_normalize_le[of v]
  by linarith

lemma scalar_max_ge_one: "1 \<le> scalar_max"
  by (simp add: scalar_max_def)

lemma compute_weight_angle_le:
  "m_objective s = MAX_ANGLE \<Longrightarrow> compute_weight s i m k \<le> scalar_max"
  using scalar_max_ge_one
  by (simp add: compute_weight_def Let_def geometric_weight_def std_max_eq_max
      MIN_AREA_def MAX_ANGLE_def order_trans[OF cosine_le_one])

lemma dp_entry_exact:
  assumes "dp_entry s i k w im" "i + 2 \<le> k"
    and "\<exists>m. i < m \<and> m < k \<and> candidate_cost s i m k \<le> scalar_max"
  shows "w = Min ((\<lambda>m. candidate_cost s i m k) ` {i<..<k})"
proof -
  let ?C = "(\<lambda>m. candidate_cost s i m k) ` {i<..<k}"
  from assms(3) obtain m where m: "i < m" "m < k" "candidate_cost s i m k \<le> scalar_max"
    by blast
  have "finite ?C" "candidate_cost s i m k \<in> ?C" using m by auto
  then have "Min ?C \<le> candidate_cost s i m k" by (rule Min_le)
  with m(3) have "Min ?C \<le> scalar_max" by linarith
  with dp_entry_min[OF assms(1,2)] show ?thesis by simp
qed

text \<open>
  Claim C1, as amended. For a face of \<open>n\<close> manifold boundary vertices and either
  objective, the planner returns tables in which every adjacent pair has cost \<open>0\<close>
  and split \<open>-1\<close>. Under the angle objective the cost of every range \<open>(i, k)\<close> with
  \<open>k - i \<ge> 2\<close> is the minimum over the candidates \<open>i < m < k\<close> of the maximum of
  \<open>cost[i][m]\<close>, \<open>weight(i,m,k)\<close> and \<open>cost[m][k]\<close>. Under the area objective the cost of
  such a range is the minimum over its candidates of
  \<open>cost[i][m] + weight(i,m,k) + cost[m][k]\<close> whenever some candidate's sum does not
  exceed the maximum representable value.
\<close>

theorem planner_recurrence:
  assumes "loop_length (m_mesh s) (halfedge (m_mesh s) f) n"
    and "\<forall>j<n. is_manifold (m_mesh s) (to_vertex (m_mesh s) ((next_halfedge (m_mesh s) ^^ j) (halfedge (m_mesh s) f)))"
    and "ob = MIN_AREA \<or> ob = MAX_ANGLE"
  shows "\<exists>s1 s2. collect_polygon s f ob = Some (True, s1) \<and> plan s1 n = Inr s2
     \<and> (\<forall>i. Suc i < n \<longrightarrow>
           get2 (m_weight s2) i (Suc i) = 0 \<and> get2 (m_index s2) i (Suc i) = - 1)
     \<and> (ob = MIN_AREA \<longrightarrow>
          (\<forall>i k. i + 2 \<le> k \<and> k < n
               \<and> (\<exists>m. i < m \<and> m < k
                      \<and> get2 (m_weight s2) i m + compute_weight s1 i m k
                          + get2 (m_weight s2) m k \<le> scalar_max) \<longrightarrow>
             get2 (m_weight s2) i k =
               Min ((\<lambda>m. get2 (m_weight s2) i m + compute_weight s1 i m k
                           + get2 (m_weight s2) m k) ` {i<..<k})))
     \<and> (ob = MAX_ANGLE \<longrightarrow>
          (\<forall>i k. i + 2 \<le> k \<and> k < n \<longrightarrow>
             get2 (m_weight s2) i k =
               Min ((\<lambda>m. max (get2 (m_weight s2) i m)
                             (max (compute_weight s1 i m k) (get2 (m_weight s2) m k)))
                      ` {i<..<k})))"
proof -
  from planned_face[OF assms] obtain s1 s2 where
    c: "collect_polygon s f ob = Some (True, s1)" and o: "m_objective s1 = ob"
    and p: "plan s1 n = Inr s2" and fr: "same_frame s1 s2"
    and base: "\<forall>a. Suc a < n \<longrightarrow> get2 (m_weight s2) a (Suc a) = 0 \<and> get2 (m_index s2) a (Suc a) = - 1"
    and dp: "\<forall>a b. a + 2 \<le> b \<and> b < n \<longrightarrow>
                  dp_entry s2 a b (get2 (m_weight s2) a b) (get2 (m_index s2) a b)"
    by blast
  have cw: "compute_weight s2 i m k = compute_weight s1 i m k" for i m k
    using fr by (intro compute_weight_frame) (simp_all add: same_frame_def)
  have o2: "m_objective s2 = ob" using fr o by (simp add: same_frame_def)
  have entry: "dp_entry s2 i k (get2 (m_weight s2) i k) (get2 (m_index s2) i k)"
    if "i + 2 \<le> k" "k < n" for i k
    using dp that by blast
  have bounded: "get2 (m_weight s2) a b \<le> scalar_max" if "a < b" "b < n" for a b
  proof (cases "b = Suc a")
    case True
    with base that have "get2 (m_weight s2) a b = 0" by simp
    with scalar_max_ge_one show ?thesis by simp
  next
    case False
    with that have "a + 2 \<le> b" by simp
    from entry[OF this that(2)] show ?thesis by (simp add: dp_entry_def)
  qed
  have area: "get2 (m_weight s2) i k =
               Min ((\<lambda>m. get2 (m_weight s2) i m + compute_weight s1 i m k
                           + get2 (m_weight s2) m k) ` {i<..<k})"
    if "ob = MIN_AREA"
      "i + 2 \<le> k \<and> k < n
         \<and> (\<exists>m. i < m \<and> m < k
                \<and> get2 (m_weight s2) i m + compute_weight s1 i m k
                    + get2 (m_weight s2) m k \<le> scalar_max)" for i k
  proof -
    have e: "candidate_cost s2 i m k =
          get2 (m_weight s2) i m + compute_weight s1 i m k + get2 (m_weight s2) m k" for m
      using that(1) by (simp add: candidate_cost_def o2 cw)
    have ik: "i + 2 \<le> k" "k < n" using that(2) by simp_all
    have "\<exists>m. i < m \<and> m < k \<and> candidate_cost s2 i m k \<le> scalar_max"
      using that(2) by (simp only: e)
    from dp_entry_exact[OF entry[OF ik] ik(1) this] show ?thesis by (simp only: e)
  qed
  have angle: "get2 (m_weight s2) i k =
               Min ((\<lambda>m. max (get2 (m_weight s2) i m)
                             (max (compute_weight s1 i m k) (get2 (m_weight s2) m k)))
                      ` {i<..<k})"
    if "ob = MAX_ANGLE" "i + 2 \<le> k \<and> k < n" for i k
  proof -
    have e: "candidate_cost s2 i m k =
          max (get2 (m_weight s2) i m)
                 (max (compute_weight s1 i m k) (get2 (m_weight s2) m k))" for m
      using that(1) by (simp add: candidate_cost_def o2 cw MIN_AREA_def MAX_ANGLE_def)
    have ik: "i + 2 \<le> k" "k < n" using that(2) by simp_all
    have w1: "get2 (m_weight s2) i (Suc i) \<le> scalar_max"
      and w2: "get2 (m_weight s2) (Suc i) k \<le> scalar_max"
      using ik by (auto intro: bounded)
    have w3: "compute_weight s1 i (Suc i) k \<le> scalar_max"
      using that(1) o by (intro compute_weight_angle_le) simp
    have "candidate_cost s2 i (Suc i) k \<le> scalar_max"
      using w1 w2 w3 by (simp add: e)
    then have "\<exists>m. i < m \<and> m < k \<and> candidate_cost s2 i m k \<le> scalar_max"
      using ik by (intro exI[of _ "Suc i"]) simp
    from dp_entry_exact[OF entry[OF ik] ik(1) this] show ?thesis by (simp only: e)
  qed
  show ?thesis
  proof (rule exI[of _ s1], rule exI[of _ s2], intro conjI)
    show "collect_polygon s f ob = Some (True, s1)" by (rule c)
    show "plan s1 n = Inr s2" by (rule p)
    show "\<forall>i. Suc i < n \<longrightarrow>
           get2 (m_weight s2) i (Suc i) = 0 \<and> get2 (m_index s2) i (Suc i) = - 1"
      by (rule base)
    show "ob = MIN_AREA \<longrightarrow>
          (\<forall>i k. i + 2 \<le> k \<and> k < n
               \<and> (\<exists>m. i < m \<and> m < k
                      \<and> get2 (m_weight s2) i m + compute_weight s1 i m k
                          + get2 (m_weight s2) m k \<le> scalar_max) \<longrightarrow>
             get2 (m_weight s2) i k =
               Min ((\<lambda>m. get2 (m_weight s2) i m + compute_weight s1 i m k
                           + get2 (m_weight s2) m k) ` {i<..<k}))"
      by (intro impI allI) (rule area)
    show "ob = MAX_ANGLE \<longrightarrow>
          (\<forall>i k. i + 2 \<le> k \<and> k < n \<longrightarrow>
             get2 (m_weight s2) i k =
               Min ((\<lambda>m. max (get2 (m_weight s2) i m)
                             (max (compute_weight s1 i m k) (get2 (m_weight s2) m k)))
                      ` {i<..<k}))"
      by (intro impI allI) (rule angle)
  qed
qed

text \<open>
  Claim C4, as amended. The tables depend only on the mesh, the face and the
  objective: two triangulation objects on the same mesh, whatever their members
  held before, plan the same face to the same tables. For every range in which some
  candidate's combined cost is strictly below the maximum representable value, the
  recorded split is the lowest candidate index that attains the minimal combined
  cost.
\<close>

theorem planner_tie_break:
  assumes "loop_length (m_mesh s) (halfedge (m_mesh s) f) n"
    and "\<forall>j<n. is_manifold (m_mesh s) (to_vertex (m_mesh s) ((next_halfedge (m_mesh s) ^^ j) (halfedge (m_mesh s) f)))"
    and "ob = MIN_AREA \<or> ob = MAX_ANGLE"
    and "m_mesh t = m_mesh s"
  shows "\<exists>s1 s2 t1 t2.
       collect_polygon s f ob = Some (True, s1) \<and> plan s1 n = Inr s2
     \<and> collect_polygon t f ob = Some (True, t1) \<and> plan t1 n = Inr t2
     \<and> m_weight t2 = m_weight s2 \<and> m_index t2 = m_index s2
     \<and> (\<forall>i k. i + 2 \<le> k \<and> k < n
            \<and> (\<exists>m. i < m \<and> m < k \<and> candidate_cost s2 i m k < scalar_max) \<longrightarrow>
          (\<exists>m0. get2 (m_index s2) i k = int m0 \<and> i < m0 \<and> m0 < k
             \<and> candidate_cost s2 i m0 k = Min ((\<lambda>m. candidate_cost s2 i m k) ` {i<..<k})
             \<and> (\<forall>m. i < m \<and> m < m0 \<longrightarrow>
                   Min ((\<lambda>m. candidate_cost s2 i m k) ` {i<..<k}) < candidate_cost s2 i m k)))"
proof -
  from planned_face[OF assms(1-3)] obtain s1 s2 where
    c: "collect_polygon s f ob = Some (True, s1)" and s1: "m_mesh s1 = m_mesh s" "m_objective s1 = ob"
    "m_vertices s1 = map (to_vertex (m_mesh s)) (walk_from (m_mesh s) (halfedge (m_mesh s) f) n)"
    and p: "plan s1 n = Inr s2"
    and dp: "\<forall>a b. a + 2 \<le> b \<and> b < n \<longrightarrow>
                  dp_entry s2 a b (get2 (m_weight s2) a b) (get2 (m_index s2) a b)"
    by blast
  have "loop_length (m_mesh t) (halfedge (m_mesh t) f) n"
    "\<forall>j<n. is_manifold (m_mesh t) (to_vertex (m_mesh t) ((next_halfedge (m_mesh t) ^^ j) (halfedge (m_mesh t) f)))"
    using assms by simp_all
  from planned_face[OF this assms(3)] obtain t1 t2 where
    ct: "collect_polygon t f ob = Some (True, t1)" and t1: "m_mesh t1 = m_mesh t" "m_objective t1 = ob"
    "m_vertices t1 = map (to_vertex (m_mesh t)) (walk_from (m_mesh t) (halfedge (m_mesh t) f) n)"
    and pt: "plan t1 n = Inr t2"
    by blast
  have "rel_sum (=) planner_view (plan t1 n) (plan s1 n)"
    by (rule plan_view) (use s1 t1 assms(4) in simp_all)
  then have eq: "m_weight t2 = m_weight s2" "m_index t2 = m_index s2"
    using p pt by (simp_all add: planner_view_def)
  have tb: "\<exists>m0. get2 (m_index s2) i k = int m0 \<and> i < m0 \<and> m0 < k
             \<and> candidate_cost s2 i m0 k = Min ((\<lambda>m. candidate_cost s2 i m k) ` {i<..<k})
             \<and> (\<forall>m. i < m \<and> m < m0 \<longrightarrow>
                   Min ((\<lambda>m. candidate_cost s2 i m k) ` {i<..<k}) < candidate_cost s2 i m k)"
    if "i + 2 \<le> k \<and> k < n
            \<and> (\<exists>m. i < m \<and> m < k \<and> candidate_cost s2 i m k < scalar_max)" for i k
  proof -
    have "dp_entry s2 i k (get2 (m_weight s2) i k) (get2 (m_index s2) i k)"
      using dp that by blast
    then show ?thesis by (rule dp_entry_first) (use that in blast)+
  qed
  show ?thesis
  proof (rule exI[of _ s1], rule exI[of _ s2], rule exI[of _ t1], rule exI[of _ t2], intro conjI)
    show "collect_polygon s f ob = Some (True, s1)" by (rule c)
    show "plan s1 n = Inr s2" by (rule p)
    show "collect_polygon t f ob = Some (True, t1)" by (rule ct)
    show "plan t1 n = Inr t2" by (rule pt)
    show "m_weight t2 = m_weight s2" by (rule eq)
    show "m_index t2 = m_index s2" by (rule eq)
    show "\<forall>i k. i + 2 \<le> k \<and> k < n
            \<and> (\<exists>m. i < m \<and> m < k \<and> candidate_cost s2 i m k < scalar_max) \<longrightarrow>
          (\<exists>m0. get2 (m_index s2) i k = int m0 \<and> i < m0 \<and> m0 < k
             \<and> candidate_cost s2 i m0 k = Min ((\<lambda>m. candidate_cost s2 i m k) ` {i<..<k})
             \<and> (\<forall>m. i < m \<and> m < m0 \<longrightarrow>
                   Min ((\<lambda>m. candidate_cost s2 i m k) ` {i<..<k}) < candidate_cost s2 i m k))"
      by (intro allI impI) (rule tb)
  qed
qed

section \<open>A quad whose diagonals both exist\<close>

lemma scalar_max_pos [simp]:
  "0 < scalar_max" "\<not> scalar_max < 0" "\<not> scalar_max \<le> 0" "scalar_max \<noteq> 0"
  by (simp_all add: scalar_max_def)

lemma edge_in_meshI:
  "h < halfedges_size m \<Longrightarrow> to_vertex m (opposite_halfedge m h) = a \<Longrightarrow> to_vertex m h = b
   \<Longrightarrow> edge_in_mesh m a b"
  by (auto simp: edge_in_mesh_def from_vertex_def)

lemma torus_edges:
  "edge_in_mesh torus_mesh 0 1"
  "edge_in_mesh torus_mesh 0 2"
  "edge_in_mesh torus_mesh 0 3"
  "edge_in_mesh torus_mesh 1 0"
  "edge_in_mesh torus_mesh 1 2"
  "edge_in_mesh torus_mesh 1 3"
  "edge_in_mesh torus_mesh 2 0"
  "edge_in_mesh torus_mesh 2 1"
  "edge_in_mesh torus_mesh 2 3"
  "edge_in_mesh torus_mesh 3 0"
  "edge_in_mesh torus_mesh 3 1"
  "edge_in_mesh torus_mesh 3 2"

  by (rule edge_in_meshI[of 0], simp_all add: torus_mesh_def numeral_eq_Suc,
      rule edge_in_meshI[of 38], simp_all add: torus_mesh_def numeral_eq_Suc,
      rule edge_in_meshI[of 7], simp_all add: torus_mesh_def numeral_eq_Suc,
      rule edge_in_meshI[of 1], simp_all add: torus_mesh_def numeral_eq_Suc,
      rule edge_in_meshI[of 2], simp_all add: torus_mesh_def numeral_eq_Suc,
      rule edge_in_meshI[of 21], simp_all add: torus_mesh_def numeral_eq_Suc,
      rule edge_in_meshI[of 39], simp_all add: torus_mesh_def numeral_eq_Suc,
      rule edge_in_meshI[of 3], simp_all add: torus_mesh_def numeral_eq_Suc,
      rule edge_in_meshI[of 4], simp_all add: torus_mesh_def numeral_eq_Suc,
      rule edge_in_meshI[of 6], simp_all add: torus_mesh_def numeral_eq_Suc,
      rule edge_in_meshI[of 20], simp_all add: torus_mesh_def numeral_eq_Suc,
      rule edge_in_meshI[of 5], simp_all add: torus_mesh_def numeral_eq_Suc)

lemma torus_gated:
  assumes "m_mesh s = torus_mesh" "m_vertices s = [0, 1, 2, 3]" "i < m" "m < k" "k < 4"
  shows "compute_weight s i m k = scalar_max"
proof -
  have r: "i < 4" "m < 4" "i \<noteq> m" "m \<noteq> k" "k \<noteq> i" using assms by auto
  have e: "edge_in_mesh torus_mesh a b" if "a < 4" "b < 4" "a \<noteq> b" for a b
  proof -
    from that have "a \<in> {0, 1, 2, 3}" "b \<in> {0, 1, 2, 3}" by auto
    with that(3) show ?thesis using torus_edges by auto
  qed
  have v: "[0, 1, 2, 3] ! x = x" if "x < 4" for x :: nat
  proof -
    from that have "x \<in> {0, 1, 2, 3}" by auto
    then show ?thesis by auto
  qed
  have vs: "m_vertices s ! i = i" "m_vertices s ! m = m" "m_vertices s ! k = k"
    using v r assms(5) unfolding assms(2) by blast+
  have "all_edges_exist s i m k"
    using r assms(5) e by (simp add: all_edges_exist_def is_edge_iff assms(1))
  then show ?thesis
    by (simp add: compute_weight_def vs Let_def)
qed

section \<open>Planning on the example meshes\<close>

lemmas plan_eval = plan_def init_2gons.simps all_ngons.simps ngons.simps find_split.simps
  split_cost_def get2_def set2_def numeral_eq_Suc

lemma collect_torus:
  "collect_polygon (new_triangulation torus_mesh) 0 ob = Some (True, collected_quad torus_mesh ob)"
  by (simp add: collect_polygon_def new_triangulation_def collected_quad_def torus_mesh_def
      collect.simps numeral_eq_Suc)

lemma collect_pillow:
  "collect_polygon (new_triangulation pillow_mesh) 0 ob = Some (True, collected_quad pillow_mesh ob)"
  by (simp add: collect_polygon_def new_triangulation_def collected_quad_def pillow_mesh_def
      collect.simps numeral_eq_Suc)

lemma collect_quad:
  "collect_polygon (new_triangulation quad_mesh) 0 ob = Some (True, collected_quad quad_mesh ob)"
  by (simp add: collect_polygon_def new_triangulation_def collected_quad_def quad_mesh_def
      collect.simps numeral_eq_Suc)

lemma torus_state [simp]:
  "m_mesh (collected_quad torus_mesh ob) = torus_mesh"
  "m_vertices (collected_quad torus_mesh ob) = [0, 1, 2, 3]"
  "m_objective (collected_quad m ob) = ob"
  by (simp_all add: collected_quad_def new_triangulation_def)

lemma plan_torus_area:
  "plan (collected_quad torus_mesh MIN_AREA) 4 = Inr (gated_tables (collected_quad torus_mesh MIN_AREA))"
  by (simp add: plan_eval torus_gated gated_tables_def)

lemma plan_torus_angle:
  "plan (collected_quad torus_mesh MAX_ANGLE) 4 = Inr (gated_tables (collected_quad torus_mesh MAX_ANGLE))"
  by (simp add: plan_eval torus_gated gated_tables_def std_max_def MIN_AREA_def MAX_ANGLE_def)

section \<open>Where the stated recurrence and tie-break fail\<close>

lemma plan_pillow_area:
  "plan (collected_quad pillow_mesh MIN_AREA) 4 = Inr (pillow_tables (collected_quad pillow_mesh MIN_AREA))"
  by (simp add: plan_eval pillow_tables_def compute_weight_def all_edges_exist_def is_edge_def
      collected_quad_def new_triangulation_def pillow_mesh_def mesh_eval geometric_weight_def
      sqrnorm_def MIN_AREA_def scalar_max_def)

lemma between_0_3: "{0<..<3::nat} = {1, 2}"
  by auto

lemma between_0_2: "{0<..<2::nat} = {1}"
  by auto

text \<open>
  Claim C1 as first stated fails on the quad of \<open>torus_mesh\<close> under the area
  objective: both candidates of the whole range cost twice the maximum
  representable value (in floating point, infinity), and the table holds that value
  itself.
\<close>

theorem planner_recurrence_counterexample:
  "collect_polygon (new_triangulation torus_mesh) 0 MIN_AREA
     = Some (True, collected_quad torus_mesh MIN_AREA)
   \<and> plan (collected_quad torus_mesh MIN_AREA) 4
     = Inr (gated_tables (collected_quad torus_mesh MIN_AREA))
   \<and> get2 (m_weight (gated_tables (collected_quad torus_mesh MIN_AREA))) 0 3 = scalar_max
   \<and> Min ((\<lambda>m. get2 (m_weight (gated_tables (collected_quad torus_mesh MIN_AREA))) 0 m
                 + compute_weight (collected_quad torus_mesh MIN_AREA) 0 m 3
                 + get2 (m_weight (gated_tables (collected_quad torus_mesh MIN_AREA))) m 3)
            ` {0<..<3}) = 2 * scalar_max
   \<and> get2 (m_weight (gated_tables (collected_quad torus_mesh MIN_AREA))) 0 3
     \<noteq> Min ((\<lambda>m. get2 (m_weight (gated_tables (collected_quad torus_mesh MIN_AREA))) 0 m
                 + compute_weight (collected_quad torus_mesh MIN_AREA) 0 m 3
                 + get2 (m_weight (gated_tables (collected_quad torus_mesh MIN_AREA))) m 3)
            ` {0<..<3})"
  by (simp add: collect_torus plan_torus_area between_0_3 torus_gated gated_tables_def get2_def)

text \<open>
  Claim C4 as first stated fails on the quad of \<open>pillow_mesh\<close>: the range \<open>(0, 2)\<close> has
  the single candidate 1, which therefore attains the minimal combined cost, and the
  recorded split is \<open>-1\<close>.
\<close>

theorem planner_tie_break_counterexample:
  "collect_polygon (new_triangulation pillow_mesh) 0 MIN_AREA
     = Some (True, collected_quad pillow_mesh MIN_AREA)
   \<and> plan (collected_quad pillow_mesh MIN_AREA) 4
     = Inr (pillow_tables (collected_quad pillow_mesh MIN_AREA))
   \<and> candidate_cost (pillow_tables (collected_quad pillow_mesh MIN_AREA)) 0 1 2
     = Min ((\<lambda>m. candidate_cost (pillow_tables (collected_quad pillow_mesh MIN_AREA)) 0 m 2)
            ` {0<..<2})
   \<and> get2 (m_index (pillow_tables (collected_quad pillow_mesh MIN_AREA))) 0 2 = - 1
   \<and> get2 (m_index (pillow_tables (collected_quad pillow_mesh MIN_AREA))) 0 2 \<noteq> 1"
  by (simp add: collect_pillow plan_pillow_area between_0_2 pillow_tables_def get2_def)

text \<open>The case the scan misses: a range none of whose candidates is strictly below the
  maximum representable value keeps the sentinel.\<close>

lemma planned_sentinel:
  assumes "m_objective s = MIN_AREA \<or> m_objective s = MAX_ANGLE"
    and "plan s n = Inr s2" and "i + 2 \<le> k" and "k < n"
    and "\<forall>m. i < m \<and> m < k \<longrightarrow> \<not> candidate_cost s2 i m k < scalar_max"
  shows "get2 (m_index s2) i k = - 1 \<and> get2 (m_weight s2) i k = scalar_max"
proof -
  from plan_spec[OF assms(1), of n] assms(2-4)
  have "dp_entry s2 i k (get2 (m_weight s2) i k) (get2 (m_index s2) i k)" by auto
  with assms(5) show ?thesis unfolding dp_entry_def by auto
qed

lemma in_range_simps:
  "in_range 0 (x # xs)" "\<not> in_range (- 1) xs"
  by (simp_all add: in_range_def)

lemma collected_quad_length [simp]: "length (m_halfedges (collected_quad m ob)) = 4"
  by (simp add: collected_quad_def)

lemma commit_gated:
  "commit (gated_tables (collected_quad m ob)) [(0, 3)] = Some (Inl OutOfRange)"
  by (simp add: commit.simps split_at_def insert_edge_def in_range_def get2_def
      gated_tables_def collected_quad_def)

text \<open>
  Claim C5 fails on the code. On the quad of \<open>torus_mesh\<close> every candidate triangle is
  rejected by the gate, no candidate is strictly below the initial \<open>wmin\<close>, and the
  split of the whole range stays \<open>-1\<close>; the commit phase then calls
  \<^verbatim>\<open>insert_edge(0, -1)\<close>, which indexes \<^verbatim>\<open>halfedges_\<close> out of range.
\<close>

theorem sentinel_reaches_commit:
  "triangulate (new_triangulation torus_mesh) 0 MIN_AREA = Some (Inl OutOfRange)
   \<and> triangulate (new_triangulation torus_mesh) 0 MAX_ANGLE = Some (Inl OutOfRange)
   \<and> get2 (m_index (gated_tables (collected_quad torus_mesh MIN_AREA))) 0 3 = - 1"
  by (simp add: triangulate_def collect_torus plan_torus_area plan_torus_angle commit_gated)
    (simp add: gated_tables_def get2_def)

section \<open>The recurrence and the tie-break on a plain quad\<close>

lemma plan_quad_area:
  "plan (collected_quad quad_mesh MIN_AREA) 4 = Inr (quad_tables (collected_quad quad_mesh MIN_AREA))"
  by (simp add: plan_eval quad_tables_def compute_weight_def all_edges_exist_def is_edge_def
      collected_quad_def new_triangulation_def quad_mesh_def mesh_eval geometric_weight_def
      sqrnorm_def MIN_AREA_def scalar_max_def)

lemma quad_face:
  "loop_length (m_mesh (new_triangulation quad_mesh)) (halfedge (m_mesh (new_triangulation quad_mesh)) 0) 4"
  "\<forall>j<4. is_manifold (m_mesh (new_triangulation quad_mesh))
      (to_vertex (m_mesh (new_triangulation quad_mesh))
        ((next_halfedge (m_mesh (new_triangulation quad_mesh)) ^^ j)
          (halfedge (m_mesh (new_triangulation quad_mesh)) 0)))"
  by (simp_all add: new_triangulation_def loop_length_def quad_mesh_def mesh_eval)

text \<open>Claim C1, as amended, on the single quad: the whole range under the area
  objective, where the first candidate costs 2, and under the angle objective.\<close>

theorem planner_recurrence_witness:
  "(\<exists>s1 s2. collect_polygon (new_triangulation quad_mesh) 0 MIN_AREA = Some (True, s1)
      \<and> plan s1 4 = Inr s2
      \<and> get2 (m_weight s2) 0 (Suc 0) = 0 \<and> get2 (m_index s2) 0 (Suc 0) = - 1
      \<and> get2 (m_weight s2) 0 1 + compute_weight s1 0 1 3 + get2 (m_weight s2) 1 3 \<le> scalar_max
      \<and> get2 (m_weight s2) 0 3 =
          Min ((\<lambda>m. get2 (m_weight s2) 0 m + compute_weight s1 0 m 3 + get2 (m_weight s2) m 3)
                ` {0<..<3}))
   \<and> (\<exists>s1 s2. collect_polygon (new_triangulation quad_mesh) 0 MAX_ANGLE = Some (True, s1)
      \<and> plan s1 4 = Inr s2
      \<and> get2 (m_weight s2) 0 3 =
          Min ((\<lambda>m. max (get2 (m_weight s2) 0 m)
                        (max (compute_weight s1 0 m 3) (get2 (m_weight s2) m 3)))
                ` {0<..<3}))"
proof -
  have va: "MIN_AREA = MIN_AREA \<or> MIN_AREA = MAX_ANGLE" by simp
  from planner_recurrence [OF quad_face va] obtain s1 s2 where
    c: "collect_polygon (new_triangulation quad_mesh) 0 MIN_AREA = Some (True, s1)"
    and p: "plan s1 4 = Inr s2"
    and b: "\<forall>i. Suc i < 4 \<longrightarrow>
           get2 (m_weight s2) i (Suc i) = 0 \<and> get2 (m_index s2) i (Suc i) = - 1"
    and r: "MIN_AREA = MIN_AREA \<longrightarrow> (\<forall>i k. i + 2 \<le> k \<and> k < 4
               \<and> (\<exists>m. i < m \<and> m < k
                      \<and> get2 (m_weight s2) i m + compute_weight s1 i m k
                          + get2 (m_weight s2) m k \<le> scalar_max) \<longrightarrow>
             get2 (m_weight s2) i k =
               Min ((\<lambda>m. get2 (m_weight s2) i m + compute_weight s1 i m k
                           + get2 (m_weight s2) m k) ` {i<..<k}))"
    by blast
  from b have b0: "get2 (m_weight s2) 0 (Suc 0) = 0 \<and> get2 (m_index s2) 0 (Suc 0) = - 1"
    by simp
  have s1: "s1 = collected_quad quad_mesh MIN_AREA" using c by (simp add: collect_quad)
  have s2: "s2 = quad_tables (collected_quad quad_mesh MIN_AREA)"
    using p unfolding s1 by (simp add: plan_quad_area)
  have cc: "get2 (m_weight s2) 0 1 + compute_weight s1 0 1 3 + get2 (m_weight s2) 1 3 \<le> scalar_max"
    unfolding s2 s1
    by (simp add: quad_tables_def get2_def compute_weight_def
        all_edges_exist_def is_edge_def collected_quad_def new_triangulation_def quad_mesh_def
        mesh_eval geometric_weight_def sqrnorm_def MIN_AREA_def scalar_max_def)
  then have ex: "\<exists>m. 0 < m \<and> m < 3
      \<and> get2 (m_weight s2) 0 m + compute_weight s1 0 m 3 + get2 (m_weight s2) m 3 \<le> scalar_max"
    by (intro exI[of _ 1]) simp
  from r[rule_format, OF refl, of 0 3] ex
  have r0: "get2 (m_weight s2) 0 3 =
          Min ((\<lambda>m. get2 (m_weight s2) 0 m + compute_weight s1 0 m 3 + get2 (m_weight s2) m 3)
                ` {0<..<3})"
    by simp
  have vm: "MAX_ANGLE = MIN_AREA \<or> MAX_ANGLE = MAX_ANGLE" by simp
  from planner_recurrence [OF quad_face vm] obtain t1 t2 where
    ct: "collect_polygon (new_triangulation quad_mesh) 0 MAX_ANGLE = Some (True, t1)"
    and pt: "plan t1 4 = Inr t2"
    and rt: "MAX_ANGLE = MAX_ANGLE \<longrightarrow> (\<forall>i k. i + 2 \<le> k \<and> k < 4 \<longrightarrow>
             get2 (m_weight t2) i k =
               Min ((\<lambda>m. max (get2 (m_weight t2) i m)
                             (max (compute_weight t1 i m k) (get2 (m_weight t2) m k)))
                      ` {i<..<k}))"
    by blast
  from rt have rt0: "get2 (m_weight t2) 0 3 =
          Min ((\<lambda>m. max (get2 (m_weight t2) 0 m)
                        (max (compute_weight t1 0 m 3) (get2 (m_weight t2) m 3)))
                ` {0<..<3})"
    by simp
  from c p b0 cc r0 ct pt rt0 show ?thesis by blast
qed

text \<open>Claim C4, as amended, on the single quad: a fresh object and a used one plan the
  same tables, and the whole range records its first minimal candidate.\<close>

theorem planner_tie_break_witness:
  "m_mesh (used_triangulation quad_mesh) = m_mesh (new_triangulation quad_mesh)
   \<and> (\<exists>s1 s2 t1 t2.
        collect_polygon (new_triangulation quad_mesh) 0 MIN_AREA = Some (True, s1)
      \<and> plan s1 4 = Inr s2
      \<and> collect_polygon (used_triangulation quad_mesh) 0 MIN_AREA = Some (True, t1)
      \<and> plan t1 4 = Inr t2
      \<and> m_weight t2 = m_weight s2 \<and> m_index t2 = m_index s2
      \<and> candidate_cost s2 0 1 3 < scalar_max
      \<and> (\<exists>m0. get2 (m_index s2) 0 3 = int m0 \<and> 0 < m0 \<and> m0 < 3
            \<and> candidate_cost s2 0 m0 3 = Min ((\<lambda>m. candidate_cost s2 0 m 3) ` {0<..<3})))"
proof -
  have m: "m_mesh (used_triangulation quad_mesh) = m_mesh (new_triangulation quad_mesh)"
    by (simp add: used_triangulation_def new_triangulation_def)
  from planner_tie_break [OF quad_face _ m, of MIN_AREA] obtain s1 s2 t1 t2 where
    c: "collect_polygon (new_triangulation quad_mesh) 0 MIN_AREA = Some (True, s1)"
    and p: "plan s1 4 = Inr s2"
    and ct: "collect_polygon (used_triangulation quad_mesh) 0 MIN_AREA = Some (True, t1)"
    and pt: "plan t1 4 = Inr t2"
    and eq: "m_weight t2 = m_weight s2" "m_index t2 = m_index s2"
    and tb: "\<forall>i k. i + 2 \<le> k \<and> k < 4
            \<and> (\<exists>m. i < m \<and> m < k \<and> candidate_cost s2 i m k < scalar_max) \<longrightarrow>
          (\<exists>m0. get2 (m_index s2) i k = int m0 \<and> i < m0 \<and> m0 < k
             \<and> candidate_cost s2 i m0 k = Min ((\<lambda>m. candidate_cost s2 i m k) ` {i<..<k})
             \<and> (\<forall>m. i < m \<and> m < m0 \<longrightarrow>
                   Min ((\<lambda>m. candidate_cost s2 i m k) ` {i<..<k}) < candidate_cost s2 i m k))"
    by auto
  have s1: "s1 = collected_quad quad_mesh MIN_AREA" using c by (simp add: collect_quad)
  have s2: "s2 = quad_tables (collected_quad quad_mesh MIN_AREA)"
    using p unfolding s1 by (simp add: plan_quad_area)
  have cc: "candidate_cost s2 0 1 3 < scalar_max"
    unfolding s2
    by (simp add: candidate_cost_def quad_tables_def get2_def compute_weight_def
        all_edges_exist_def is_edge_def collected_quad_def new_triangulation_def quad_mesh_def
        mesh_eval geometric_weight_def sqrnorm_def MIN_AREA_def scalar_max_def)
  then have ex: "\<exists>m. 0 < m \<and> m < 3 \<and> candidate_cost s2 0 m 3 < scalar_max"
    by (intro exI[of _ 1]) simp
  from tb[rule_format, of 0 3] ex
  have "\<exists>m0. get2 (m_index s2) 0 3 = int m0 \<and> 0 < m0 \<and> m0 < 3
            \<and> candidate_cost s2 0 m0 3 = Min ((\<lambda>m. candidate_cost s2 0 m 3) ` {0<..<3})"
    by auto
  with m c p ct pt eq cc show ?thesis by blast
qed

section \<open>The commit phase terminates\<close>

lemma valid_loops_iff:
  "valid_loops m \<longleftrightarrow>
     inj_on (next_halfedge m) {..<halfedges_size m}
     \<and> next_halfedge m ` {..<halfedges_size m} \<subseteq> {..<halfedges_size m}"
  by (auto simp: valid_loops_def distinct_map atLeast0LessThan)

lemma funpow_stays:
  assumes "f ` S \<subseteq> S" "x \<in> S"
  shows "(f ^^ k) x \<in> S"
  using assms by (induction k) auto

lemma funpow_inj_on:
  assumes "inj_on f S" "f ` S \<subseteq> S"
  shows "inj_on (f ^^ k) S"
proof (induction k)
  case 0
  show ?case by simp
next
  case (Suc k)
  have "(f ^^ k) ` S \<subseteq> S" using funpow_stays[OF assms(2)] by auto
  then have "inj_on f ((f ^^ k) ` S)" using assms(1) by (rule inj_on_subset[rotated])
  with Suc have "inj_on (f \<circ> (f ^^ k)) S" by (rule comp_inj_on)
  then show ?case by (simp only: funpow.simps)
qed

lemma orbit_returns:
  fixes f :: "nat \<Rightarrow> nat" and N :: nat
  assumes inj: "inj_on f {..<N}" and ran: "f ` {..<N} \<subseteq> {..<N}" and x: "x < N"
  shows "\<exists>p. 0 < p \<and> (f ^^ p) x = x"
proof -
  have xs: "x \<in> {..<N}" using x by simp
  have "\<not> inj_on (\<lambda>k. (f ^^ k) x) {..N}"
  proof
    assume "inj_on (\<lambda>k. (f ^^ k) x) {..N}"
    moreover have "(\<lambda>k. (f ^^ k) x) ` {..N} \<subseteq> {..<N}"
      using funpow_stays[OF ran xs] by auto
    ultimately have "card {..N} \<le> card {..<N}"
      by (rule card_inj_on_le) simp
    then show False by simp
  qed
  then obtain i j where ij: "i \<noteq> j" "(f ^^ i) x = (f ^^ j) x"
    by (auto simp: inj_on_def)
  have main: "\<exists>p. 0 < p \<and> (f ^^ p) x = x" if "a < b" "(f ^^ a) x = (f ^^ b) x" for a b
  proof -
    have "(f ^^ (a + (b - a))) x = (f ^^ a) ((f ^^ (b - a)) x)"
      by (simp only: funpow_add comp_apply)
    moreover have "a + (b - a) = b" using that(1) by simp
    ultimately have "(f ^^ a) ((f ^^ (b - a)) x) = (f ^^ a) x"
      using that(2) by simp
    moreover have "(f ^^ (b - a)) x \<in> {..<N}" by (rule funpow_stays[OF ran xs])
    ultimately have "(f ^^ (b - a)) x = x"
      using funpow_inj_on[OF inj ran, of a] xs by (auto dest: inj_onD)
    with that(1) show ?thesis by (intro exI[of _ "b - a"]) simp
  qed
  from ij consider "i < j" | "j < i" by linarith
  then show ?thesis using main[of i j] main[of j i] ij(2) by cases auto
qed

lemma valid_loops_closed:
  assumes "valid_loops m" "h < halfedges_size m"
  shows "\<exists>n. loop_length m h n"
proof -
  let ?P = "\<lambda>p. 0 < p \<and> (next_halfedge m ^^ p) h = h"
  from assms have "\<exists>p. ?P p"
    unfolding valid_loops_iff by (intro orbit_returns) auto
  then obtain p0 where p0: "?P p0" by blast
  define p where "p = (LEAST p. ?P p)"
  have pp: "?P p" unfolding p_def using p0 by (rule LeastI)
  have least: "\<not> ?P k" if "k < p" for k
    using not_less_Least[of k ?P] that unfolding p_def by blast
  have "\<forall>k \<in> set [1..<p]. (next_halfedge m ^^ k) h \<noteq> h"
  proof
    fix k assume "k \<in> set [1..<p]"
    then have k: "0 < k" "k < p" by auto
    from least[OF k(2)] k(1) show "(next_halfedge m ^^ k) h \<noteq> h" by blast
  qed
  with pp show ?thesis unfolding loop_length_def by blast
qed

lemma valid_loops_funpow:
  assumes "valid_loops m" "h < halfedges_size m"
  shows "(next_halfedge m ^^ k) h < halfedges_size m"
  using funpow_stays[of "next_halfedge m" "{..<halfedges_size m}" h k] assms
  unfolding valid_loops_iff by auto

lemma mesh_insert_edge_next:
  "next_halfedge (mesh_insert_edge m h0 h1) =
     (next_halfedge m)(h0 := halfedges_size m, halfedges_size m := next_halfedge m h1,
                       h1 := Suc (halfedges_size m), Suc (halfedges_size m) := next_halfedge m h0)"
  by (simp add: mesh_insert_edge_def Let_def)

lemma mesh_insert_edge_to_vertex:
  "h < halfedges_size m \<Longrightarrow> to_vertex (mesh_insert_edge m h0 h1) h = to_vertex m h"
  by (simp add: mesh_insert_edge_def Let_def)

lemma valid_loops_insert:
  assumes v: "valid_loops m" and h: "h0 < halfedges_size m" "h1 < halfedges_size m" "h0 \<noteq> h1"
  shows "valid_loops (mesh_insert_edge m h0 h1)"
proof -
  let ?N = "halfedges_size m"
  let ?f = "next_halfedge m"
  let ?g = "next_halfedge (mesh_insert_edge m h0 h1)"
  from v have inj: "\<And>x y. x < ?N \<Longrightarrow> y < ?N \<Longrightarrow> ?f x = ?f y \<Longrightarrow> x = y"
    and ran: "\<And>x. x < ?N \<Longrightarrow> ?f x < ?N"
    unfolding valid_loops_iff by (auto dest: inj_onD)
  have g: "?g x = (if x = Suc ?N then ?f h0 else if x = h1 then Suc ?N
                   else if x = ?N then ?f h1 else if x = h0 then ?N else ?f x)" for x
    by (simp add: mesh_insert_edge_next)
  have ran': "?g x < ?N + 2" if "x < ?N + 2" for x
    using that ran[of x] ran[of h0] ran[of h1] h by (auto simp: g)
  have inj': "x = y" if "x < ?N + 2" "y < ?N + 2" "?g x = ?g y" for x y
  proof -
    have c: "x = Suc ?N \<or> x = ?N \<or> x = h1 \<or> x = h0 \<or> (x < ?N \<and> x \<noteq> h0 \<and> x \<noteq> h1)"
      "y = Suc ?N \<or> y = ?N \<or> y = h1 \<or> y = h0 \<or> (y < ?N \<and> y \<noteq> h0 \<and> y \<noteq> h1)"
      using that by auto
    have r: "?f h0 < ?N" "?f h1 < ?N" "?f h0 \<noteq> ?f h1"
      using ran h inj[of h0 h1] by auto
    have o: "z < ?N \<Longrightarrow> z \<noteq> h0 \<Longrightarrow> ?f z \<noteq> ?f h0"
      "z < ?N \<Longrightarrow> z \<noteq> h1 \<Longrightarrow> ?f z \<noteq> ?f h1" "z < ?N \<Longrightarrow> ?f z < ?N" for z
      using inj[of z h0] inj[of z h1] ran[of z] h by auto
    show ?thesis
      using c that(3) r h o[of x] o[of y] inj[of x y]
      by (auto simp: g split: if_splits)
  qed
  show ?thesis
    unfolding valid_loops_iff
    using ran' inj' by (auto simp: inj_on_def)
qed

lemma insert_edge_result:
  assumes "in_range i (m_halfedges s)" and "in_range j (m_halfedges s)"
    and "in_range i (m_vertices s)" and "in_range j (m_vertices s)"
    and "loop_length (m_mesh s) (m_halfedges s ! nat i) n0"
    and "loop_length (m_mesh s) (m_halfedges s ! nat j) n1"
  shows "\<exists>b s'. insert_edge s i j = Some (Inr (b, s'))
     \<and> (s' = s \<or> s' = s\<lparr>cerr := cerr s @ [msg_should_not_happen]\<rparr>
        \<or> (\<exists>k. to_vertex (m_mesh s) ((next_halfedge (m_mesh s) ^^ k) (m_halfedges s ! nat i))
                  = m_vertices s ! nat j
              \<and> s' = s\<lparr>m_mesh := mesh_insert_edge (m_mesh s) (m_halfedges s ! nat i)
                                  ((next_halfedge (m_mesh s) ^^ k) (m_halfedges s ! nat i))\<rparr>)
        \<or> (\<exists>k. to_vertex (m_mesh s) ((next_halfedge (m_mesh s) ^^ k) (m_halfedges s ! nat j))
                  = m_vertices s ! nat i
              \<and> s' = s\<lparr>m_mesh := mesh_insert_edge (m_mesh s) (m_halfedges s ! nat j)
                                  ((next_halfedge (m_mesh s) ^^ k) (m_halfedges s ! nat j))\<rparr>))"
proof -
  let ?m = "m_mesh s"
  let ?h0 = "m_halfedges s ! nat i" and ?h1 = "m_halfedges s ! nat j"
  let ?v0 = "m_vertices s ! nat i" and ?v1 = "m_vertices s ! nat j"
  note r0 = reach_cases[OF assms(5), of ?v1]
  note r1 = reach_cases[OF assms(6), of ?v0]
  show ?thesis
  proof (cases "find_halfedge ?m ?v0 ?v1 = None")
    case False
    then show ?thesis using assms(1-4) by (auto simp: insert_edge_def Let_def)
  next
    case none: True
    show ?thesis
    proof (cases "target_on_loop ?m ?h0 n0 ?v1")
      case True
      with r0 obtain k where "to_vertex ?m ((next_halfedge ?m ^^ k) ?h0) = ?v1"
        "reach ?m ?h0 ?v1 ?h0 = Some (Some ((next_halfedge ?m ^^ k) ?h0))"
        by auto
      then show ?thesis using assms(1-4) none
        by (auto simp: insert_edge_def Let_def)
    next
      case f0: False
      with r0 have e0: "reach ?m ?h0 ?v1 ?h0 = Some None" by simp
      show ?thesis
      proof (cases "target_on_loop ?m ?h1 n1 ?v0")
        case True
        with r1 obtain k where "to_vertex ?m ((next_halfedge ?m ^^ k) ?h1) = ?v0"
          "reach ?m ?h1 ?v0 ?h1 = Some (Some ((next_halfedge ?m ^^ k) ?h1))"
          by auto
        then show ?thesis using assms(1-4) none e0
          by (auto simp: insert_edge_def Let_def)
      next
        case False
        with r1 have "reach ?m ?h1 ?v0 ?h1 = Some None" by simp
        then show ?thesis using assms(1-4) none e0
          by (auto simp: insert_edge_def Let_def)
      qed
    qed
  qed
qed

lemma commit_ready_insert:
  assumes r: "commit_ready s" and h0: "h0 \<in> set (m_halfedges s)"
    and h: "h = (next_halfedge (m_mesh s) ^^ k) h0"
    and ne: "to_vertex (m_mesh s) h \<noteq> to_vertex (m_mesh s) h0"
  shows "commit_ready (s\<lparr>m_mesh := mesh_insert_edge (m_mesh s) h0 h\<rparr>)"
proof -
  let ?m = "m_mesh s"
  from r have v: "valid_loops ?m" and b: "\<forall>x \<in> set (m_halfedges s). x < halfedges_size ?m"
    and vs: "m_vertices s = map (to_vertex ?m) (m_halfedges s)" and d: "distinct (m_vertices s)"
    by (auto simp: commit_ready_def)
  have h0b: "h0 < halfedges_size ?m" using b h0 by blast
  have hb: "h < halfedges_size ?m" unfolding h by (rule valid_loops_funpow[OF v h0b])
  have "h0 \<noteq> h" using ne by auto
  from valid_loops_insert[OF v h0b hb this]
  have v': "valid_loops (mesh_insert_edge ?m h0 h)" .
  have "map (to_vertex (mesh_insert_edge ?m h0 h)) (m_halfedges s) = map (to_vertex ?m) (m_halfedges s)"
    using b by (intro map_cong) (auto simp: mesh_insert_edge_to_vertex)
  with v' b vs d show ?thesis
    by (auto simp: commit_ready_def)
qed

lemma insert_edge_ready:
  assumes r: "commit_ready s" and i: "in_range i (m_halfedges s)" and j: "in_range j (m_halfedges s)"
    and ij: "i \<noteq> j"
  shows "\<exists>b s'. insert_edge s i j = Some (Inr (b, s')) \<and> commit_ready s'
           \<and> m_index s' = m_index s \<and> m_halfedges s' = m_halfedges s"
proof -
  let ?m = "m_mesh s"
  let ?h0 = "m_halfedges s ! nat i" and ?h1 = "m_halfedges s ! nat j"
  from r have v: "valid_loops ?m" and b: "\<forall>x \<in> set (m_halfedges s). x < halfedges_size ?m"
    and vs: "m_vertices s = map (to_vertex ?m) (m_halfedges s)" and d: "distinct (m_vertices s)"
    by (auto simp: commit_ready_def)
  have ni: "nat i < length (m_halfedges s)" and nj: "nat j < length (m_halfedges s)"
    and nij: "nat i \<noteq> nat j"
    using i j ij by (auto simp: in_range_def)
  have mem: "?h0 \<in> set (m_halfedges s)" "?h1 \<in> set (m_halfedges s)"
    using ni nj by simp_all
  have iv: "in_range i (m_vertices s)" "in_range j (m_vertices s)"
    using i j vs by (simp_all add: in_range_def)
  have tv: "m_vertices s ! nat i = to_vertex ?m ?h0" "m_vertices s ! nat j = to_vertex ?m ?h1"
    using ni nj vs by simp_all
  have lv: "length (m_vertices s) = length (m_halfedges s)"
    using arg_cong[OF vs, of length] by simp
  have vne: "m_vertices s ! nat i \<noteq> m_vertices s ! nat j"
    using nth_eq_iff_index_eq[OF d, of "nat i" "nat j"] ni nj nij lv by simp
  from valid_loops_closed[OF v] b mem obtain n0 n1 where
    l: "loop_length ?m ?h0 n0" "loop_length ?m ?h1 n1" by blast
  from insert_edge_result[OF i j iv l] obtain b' s' where
    res: "insert_edge s i j = Some (Inr (b', s'))"
    and alt: "s' = s \<or> s' = s\<lparr>cerr := cerr s @ [msg_should_not_happen]\<rparr>
        \<or> (\<exists>k. to_vertex ?m ((next_halfedge ?m ^^ k) ?h0) = m_vertices s ! nat j
              \<and> s' = s\<lparr>m_mesh := mesh_insert_edge ?m ?h0 ((next_halfedge ?m ^^ k) ?h0)\<rparr>)
        \<or> (\<exists>k. to_vertex ?m ((next_halfedge ?m ^^ k) ?h1) = m_vertices s ! nat i
              \<and> s' = s\<lparr>m_mesh := mesh_insert_edge ?m ?h1 ((next_halfedge ?m ^^ k) ?h1)\<rparr>)"
    by blast
  have "commit_ready s' \<and> m_index s' = m_index s \<and> m_halfedges s' = m_halfedges s"
    using alt
  proof (elim disjE exE conjE)
    assume "s' = s"
    then show ?thesis using r by simp
  next
    assume "s' = s\<lparr>cerr := cerr s @ [msg_should_not_happen]\<rparr>"
    then show ?thesis using r by (auto simp: commit_ready_def)
  next
    fix k
    assume t: "to_vertex ?m ((next_halfedge ?m ^^ k) ?h0) = m_vertices s ! nat j"
      and s': "s' = s\<lparr>m_mesh := mesh_insert_edge ?m ?h0 ((next_halfedge ?m ^^ k) ?h0)\<rparr>"
    have "to_vertex ?m ((next_halfedge ?m ^^ k) ?h0) \<noteq> to_vertex ?m ?h0"
      using t vne tv by simp
    from commit_ready_insert[OF r mem(1) refl this] show ?thesis unfolding s' by simp
  next
    fix k
    assume t: "to_vertex ?m ((next_halfedge ?m ^^ k) ?h1) = m_vertices s ! nat i"
      and s': "s' = s\<lparr>m_mesh := mesh_insert_edge ?m ?h1 ((next_halfedge ?m ^^ k) ?h1)\<rparr>"
    have "to_vertex ?m ((next_halfedge ?m ^^ k) ?h1) \<noteq> to_vertex ?m ?h1"
      using t vne tv by simp
    from commit_ready_insert[OF r mem(2) refl this] show ?thesis unfolding s' by simp
  qed
  with res show ?thesis by blast
qed

lemma commit_returns:
  assumes "commit_ready s" and "splits_inside s n" and "length (m_halfedges s) = n"
    and "\<forall>tri \<in> set todo. 0 \<le> fst tri \<and> snd tri < int n"
  shows "\<exists>s'. commit s todo = Some (Inr s') \<and> commit_ready s'"
  using assms
proof (induction "todo_measure todo" arbitrary: s todo rule: less_induct)
  case less
  show ?case
  proof (cases todo)
    case Nil
    then show ?thesis using less.prems(1) by (subst commit.simps) simp
  next
    case (Cons tri rest)
    obtain a b where tri: "tri = (a, b)" by (cases tri)
    have ab: "0 \<le> a" "b < int n" using less.prems(4) Cons tri by auto
    have rest: "\<forall>tri \<in> set rest. 0 \<le> fst tri \<and> snd tri < int n"
      using less.prems(4) Cons by simp
    show ?thesis
    proof (cases "b - a < 2")
      case True
      have "todo_measure rest < todo_measure todo"
        by (simp add: Cons todo_measure_def)
      from less.hyps[OF this less.prems(1-3) rest]
      show ?thesis using True by (subst commit.simps) (simp add: Cons tri)
    next
      case False
      let ?sp = "get2 (m_index s) (nat a) (nat b)"
      have sq: "square (m_index s) n" using less.prems(2) by (simp add: splits_inside_def)
      have "nat a + 2 \<le> nat b \<and> nat b < n" using False ab by auto
      with less.prems(2) have "int (nat a) < ?sp \<and> ?sp < int (nat b)"
        unfolding splits_inside_def by blast
      then have sp: "a < ?sp" "?sp < b" using ab False by auto
      have spl: "split_at s a b = Inr ?sp"
        using sq ab False by (auto simp: split_at_def in_range_def square_def)
      have r1: "in_range a (m_halfedges s)" "in_range ?sp (m_halfedges s)" "in_range b (m_halfedges s)"
        using ab sp less.prems(3) by (auto simp: in_range_def)
      from insert_edge_ready[OF less.prems(1) r1(1,2)] sp obtain b1 s1 where
        i1: "insert_edge s a ?sp = Some (Inr (b1, s1))" and c1: "commit_ready s1"
        and e1: "m_index s1 = m_index s" "m_halfedges s1 = m_halfedges s"
        by auto
      from insert_edge_ready[of s1 ?sp b] c1 r1(2,3) e1 sp obtain b2 s2 where
        i2: "insert_edge s1 ?sp b = Some (Inr (b2, s2))" and c2: "commit_ready s2"
        and e2: "m_index s2 = m_index s" "m_halfedges s2 = m_halfedges s"
        by auto
      let ?todo' = "(?sp, b) # (a, ?sp) # rest"
      have m: "todo_measure ?todo' < todo_measure todo"
        using sp by (simp add: Cons tri todo_measure_def, linarith)
      have p2: "splits_inside s2 n" "length (m_halfedges s2) = n"
        using less.prems(2,3) e2 by (simp_all add: splits_inside_def)
      have rg: "\<forall>tri \<in> set ?todo'. 0 \<le> fst tri \<and> snd tri < int n"
        using rest ab sp by auto
      from less.hyps[OF m c2 p2 rg] obtain s' where
        "commit s2 ?todo' = Some (Inr s')" "commit_ready s'" by blast
      then show ?thesis
        using False spl i1 i2 by (subst commit.simps) (simp add: Cons tri)
    qed
  qed
qed

text \<open>
  Claim C10. When every entry of the split table for a range of span at least two
  lies strictly inside the range, the traversal of the commit phase, started with
  the whole range on the stack, returns: a popped range of span below two is
  discarded, any other is replaced by two strictly shorter ones, and the two
  insertions of an iteration return because the loops of the mesh are closed and
  stay closed under the insertion of an edge.
\<close>

theorem commit_terminates:
  assumes "splits_inside s n" and "commit_ready s" and "length (m_halfedges s) = n"
  shows "\<exists>s'. commit s [(0, int n - 1)] = Some (Inr s')"
  using commit_returns[OF assms(2,1,3), of "[(0, int n - 1)]"] by auto

section \<open>The commit phase on a plain quad\<close>

lemma quad_tables_splits_inside:
  "splits_inside (quad_tables (collected_quad quad_mesh MIN_AREA)) 4"
proof -
  let ?I = "[[0, - 1, 1, 1], [0, 0, - 1, 2], [0, 0, 0, - 1], [0, 0, 0, 0 :: int]]"
  have sq: "square ?I 4"
    by (simp add: square_def nth_Cons' less_Suc_eq numeral_eq_Suc)
  have e: "int a < get2 ?I a b \<and> get2 ?I a b < int b" if "a + 2 \<le> b" "b < 4" for a b
  proof -
    from that have "(a = 0 \<and> b = 2) \<or> (a = 0 \<and> b = 3) \<or> (a = 1 \<and> b = 3)" by auto
    then show ?thesis by (auto simp: get2_def)
  qed
  show ?thesis
    using sq e by (simp add: splits_inside_def quad_tables_def)
qed

lemma quad_tables_commit_ready:
  "commit_ready (quad_tables (collected_quad quad_mesh ob))"
  by (simp add: commit_ready_def valid_loops_def quad_tables_def collected_quad_def
      new_triangulation_def quad_mesh_def upt_rec numeral_eq_Suc)

text \<open>Claim C10 on the single quad with the tables the planner gives it.\<close>

theorem commit_terminates_witness:
  "splits_inside (quad_tables (collected_quad quad_mesh MIN_AREA)) 4
   \<and> commit_ready (quad_tables (collected_quad quad_mesh MIN_AREA))
   \<and> (\<exists>s'. commit (quad_tables (collected_quad quad_mesh MIN_AREA)) [(0, 3)] = Some (Inr s'))"
proof -
  have l: "length (m_halfedges (quad_tables (collected_quad quad_mesh MIN_AREA))) = 4"
    by (simp add: quad_tables_def)
  show ?thesis
    using commit_terminates [OF quad_tables_splits_inside quad_tables_commit_ready l]
      quad_tables_splits_inside quad_tables_commit_ready
    by simp
qed

section \<open>The example meshes are well formed\<close>

lemma example_meshes_well_formed:
  "well_formed triangle_mesh" "well_formed quad_mesh" "well_formed bowtie_mesh"
  "well_formed pillow_mesh"
  by (simp_all add: well_formed_def valid_loops_def from_vertex_def upt_rec numeral_eq_Suc
      triangle_mesh_def quad_mesh_def bowtie_mesh_def pillow_mesh_def)

lemma torus_mesh_well_formed: "well_formed torus_mesh" "closed_mesh torus_mesh"
  by (simp_all add: well_formed_def closed_mesh_def is_boundary_def valid_loops_def
      from_vertex_def upt_rec numeral_eq_Suc torus_mesh_def)

lemma pillow_mesh_closed: "closed_mesh pillow_mesh"
  by (simp add: closed_mesh_def is_boundary_def upt_rec numeral_eq_Suc pillow_mesh_def)

end
